theory Spec2Isabelle
  imports Main
begin

section \<open>Syntax trees\<close>

text \<open>
  The loader works on the syntax tree that jscodeshift builds for a module. The model
  keeps the node kinds that \<^verbatim>\<open>ast.ts\<close> tests for (\<^verbatim>\<open>Identifier\<close>,
  \<^verbatim>\<open>ImportSpecifier\<close>, \<^verbatim>\<open>Property\<close>, \<^verbatim>\<open>ObjectPattern\<close>, \<^verbatim>\<open>ObjectExpression\<close>,
  \<^verbatim>\<open>MemberExpression\<close>, \<^verbatim>\<open>ExportSpecifier\<close>, \<^verbatim>\<open>VariableDeclarator\<close>,
  \<^verbatim>\<open>VariableDeclaration\<close>) with the fields the code reads, and one constructor
  \<open>Other\<close> for every other kind of node, holding its child nodes in traversal order.
  \<open>Absent\<close> stands for a mandatory field whose node has been deleted. Fields are listed
  in the order in which ast-types visits them (the fields of the base type first, so
  \<^verbatim>\<open>local\<close> comes before \<^verbatim>\<open>imported\<close> and \<^verbatim>\<open>exported\<close>). Comment attachments and
  source locations are not part of the model. A tree is a tree: no node object is shared
  between two fields, so the identity test \<^verbatim>\<open>node === parent.key\<close> of the source is
  the test that the node sits in the field \<^verbatim>\<open>key\<close> of its parent.
\<close>

datatype node =
    Identifier string
  | ImportSpecifier "node option" node
  | Property node node bool
  | ObjectPattern "node list"
  | ObjectExpression "node list"
  | MemberExpression node node bool
  | ExportSpecifier "node option" node
  | VariableDeclarator node "node option"
  | VariableDeclaration "node list"
  | Other string "node list"
  | Absent

type_synonym ast = node

text \<open>
  A node path of jscodeshift is modelled by the list of fields and array indices that
  leads from the root to the node.
\<close>

datatype step =
    Local | Imported | Key | Val | Object | PropertyF | Exported | Id | Init | Elem nat

type_synonym path = "step list"

definition elems :: "node list \<Rightarrow> (step \<times> node) list" where
  "elems ns = zip (map Elem [0..<length ns]) ns"

definition opt_field :: "step \<Rightarrow> node option \<Rightarrow> (step \<times> node) list" where
  "opt_field s l = (case l of None \<Rightarrow> [] | Some n \<Rightarrow> [(s, n)])"

fun subnodes :: "node \<Rightarrow> (step \<times> node) list" where
  "subnodes (Identifier x) = []"
| "subnodes (ImportSpecifier l i) = opt_field Local l @ [(Imported, i)]"
| "subnodes (Property k v sh) = [(Key, k), (Val, v)]"
| "subnodes (ObjectPattern ps) = elems ps"
| "subnodes (ObjectExpression ps) = elems ps"
| "subnodes (MemberExpression ob pr c) = [(Object, ob), (PropertyF, pr)]"
| "subnodes (ExportSpecifier l e) = opt_field Local l @ [(Exported, e)]"
| "subnodes (VariableDeclarator i init) = (Id, i) # opt_field Init init"
| "subnodes (VariableDeclaration ds) = elems ds"
| "subnodes (Other k cs) = elems cs"
| "subnodes Absent = []"

definition child :: "node \<Rightarrow> step \<Rightarrow> node option" where
  "child n s = map_of (subnodes n) s"

definition set_elem :: "node list \<Rightarrow> step \<Rightarrow> node \<Rightarrow> node list" where
  "set_elem ns s c = (case s of Elem i \<Rightarrow> ns[i := c] | _ \<Rightarrow> ns)"

definition set_opt :: "node option \<Rightarrow> node \<Rightarrow> node option" where
  "set_opt l c = (case l of None \<Rightarrow> None | Some _ \<Rightarrow> Some c)"

definition with_child :: "node \<Rightarrow> step \<Rightarrow> node \<Rightarrow> node" where
  "with_child n s c =
     (case n of
        ImportSpecifier l i \<Rightarrow>
          (if s = Local then ImportSpecifier (set_opt l c) i
           else if s = Imported then ImportSpecifier l c else n)
      | Property k v sh \<Rightarrow>
          (if s = Key then Property c v sh else if s = Val then Property k c sh else n)
      | ObjectPattern ps \<Rightarrow> ObjectPattern (set_elem ps s c)
      | ObjectExpression ps \<Rightarrow> ObjectExpression (set_elem ps s c)
      | MemberExpression ob pr cp \<Rightarrow>
          (if s = Object then MemberExpression c pr cp
           else if s = PropertyF then MemberExpression ob c cp else n)
      | ExportSpecifier l e \<Rightarrow>
          (if s = Local then ExportSpecifier (set_opt l c) e
           else if s = Exported then ExportSpecifier l c else n)
      | VariableDeclarator i init \<Rightarrow>
          (if s = Id then VariableDeclarator c init
           else if s = Init then VariableDeclarator i (set_opt init c) else n)
      | VariableDeclaration ds \<Rightarrow> VariableDeclaration (set_elem ds s c)
      | Other k cs \<Rightarrow> Other k (set_elem cs s c)
      | _ \<Rightarrow> n)"

fun get :: "node \<Rightarrow> path \<Rightarrow> node option" where
  "get n [] = Some n"
| "get n (s # p) = (case child n s of None \<Rightarrow> None | Some c \<Rightarrow> get c p)"

fun modify :: "(node \<Rightarrow> node) \<Rightarrow> path \<Rightarrow> node \<Rightarrow> node" where
  "modify f [] n = f n"
| "modify f (s # p) n =
     (case child n s of None \<Rightarrow> n | Some c \<Rightarrow> with_child n s (modify f p c))"

lemma size_elems: "(s, c) \<in> set (elems ns) \<Longrightarrow> size c < Suc (size_list size ns)"
  unfolding elems_def by (auto dest!: set_zip_rightD simp: less_Suc_eq_le size_list_estimation')

lemma size_subnodes: "(s, c) \<in> set (subnodes n) \<Longrightarrow> size c < size n"
  by (cases n) (auto dest: size_elems simp: opt_field_def split: option.splits)

function descendants :: "node \<Rightarrow> (path \<times> node) list" where
  "descendants n =
     concat (map (\<lambda>(s, c). ([s], c) # map (\<lambda>(p, d). (s # p, d)) (descendants c)) (subnodes n))"
  by pat_completeness auto
termination
  by (relation "measure size") (auto dest: size_subnodes)

declare descendants.simps [simp del]



section \<open>Node queries\<close>

text \<open>
  \<^verbatim>\<open>ast.find(Type).filter(f)\<close> of jscodeshift: the paths of the nodes below the root
  that pass the filter, in the order of a pre-order traversal. \<open>descendants\<close> lists
  every node below the root with its path; the root itself is never among the matches.
\<close>

definition ast_find :: "(node \<Rightarrow> bool) \<Rightarrow> ast \<Rightarrow> path list" where
  "ast_find P t = map fst (filter (\<lambda>(p, n). P n) (descendants t))"

definition identifierFilter :: "string \<Rightarrow> node \<Rightarrow> bool" where
  "identifierFilter name n = (case n of Identifier x \<Rightarrow> x = name | _ \<Rightarrow> False)"

definition findIdentifiers :: "ast \<Rightarrow> string \<Rightarrow> path list" where
  "findIdentifiers t name = ast_find (identifierFilter name) t"

text \<open>The names of the identifiers that occur in a tree.\<close>

definition identifierNames :: "ast \<Rightarrow> string set" where
  "identifierNames t = {x. \<exists>p. (p, Identifier x) \<in> set (descendants t)}"

definition name_or_empty :: "path \<times> node \<Rightarrow> string" where
  "name_or_empty pn = (case snd pn of Identifier x \<Rightarrow> x | _ \<Rightarrow> [])"

lemma finite_identifierNames: "finite (identifierNames t)"
proof -
  have "identifierNames t \<subseteq> name_or_empty ` set (descendants t)"
  proof
    fix x
    assume "x \<in> identifierNames t"
    then obtain p where "(p, Identifier x) \<in> set (descendants t)"
      unfolding identifierNames_def by blast
    then have "name_or_empty (p, Identifier x) \<in> name_or_empty ` set (descendants t)"
      by (rule imageI)
    then show "x \<in> name_or_empty ` set (descendants t)"
      by (simp add: name_or_empty_def)
  qed
  then show ?thesis by (rule finite_subset) simp
qed

lemma findIdentifiers_empty_iff:
  "findIdentifiers t x = [] \<longleftrightarrow> x \<notin> identifierNames t"
  unfolding findIdentifiers_def ast_find_def identifierNames_def identifierFilter_def
  by (auto simp: filter_empty_conv split: node.splits)

definition longer_names :: "ast \<Rightarrow> string \<Rightarrow> nat" where
  "longer_names t x = card {y \<in> identifierNames t. length x < length y}"

lemma longer_names_less:
  assumes "findIdentifiers t (c # x) \<noteq> []"
  shows "longer_names t (c # x) < longer_names t x"
proof -
  let ?A = "{y \<in> identifierNames t. length (c # x) < length y}"
  let ?B = "{y \<in> identifierNames t. length x < length y}"
  have in_names: "c # x \<in> identifierNames t"
    using assms by (simp add: findIdentifiers_empty_iff)
  have "?A \<subseteq> ?B" by auto
  moreover have "c # x \<in> ?B" "c # x \<notin> ?A" using in_names by auto
  ultimately have "?A \<subset> ?B" by blast
  moreover have "finite ?B" by (simp add: finite_identifierNames)
  ultimately show ?thesis
    unfolding longer_names_def by (rule psubset_card_mono[rotated])
qed

section \<open>The alias allocator\<close>

text \<open>
  \<^verbatim>\<open>findAvailibleAlias\<close>: the loop prefixes the last name tried with an underscore and
  searches the tree for it, until the search finds nothing. It terminates because every
  name that is tried and found is a longer name of the tree than the one before.
\<close>

function findAvailibleAlias_loop :: "ast \<Rightarrow> string \<Rightarrow> string" where
  "findAvailibleAlias_loop userAST newName =
     (let newName' = CHR ''_'' # newName;
          existingIdentifiers = findIdentifiers userAST newName'
      in if existingIdentifiers = [] then newName'
         else findAvailibleAlias_loop userAST newName')"
  by pat_completeness auto
termination
  by (relation "measure (\<lambda>(t, x). longer_names t x)") (auto dest: longer_names_less)

definition findAvailibleAlias :: "ast \<Rightarrow> string \<Rightarrow> string" where
  "findAvailibleAlias userAST origName = findAvailibleAlias_loop userAST origName"

text \<open>
  The same loop, returning every name it tries, in order: one name per iteration, the
  last one being the alias returned.
\<close>

function candidates :: "ast \<Rightarrow> string \<Rightarrow> string list" where
  "candidates userAST newName =
     (let newName' = CHR ''_'' # newName
      in if findIdentifiers userAST newName' = [] then [newName']
         else newName' # candidates userAST newName')"
  by pat_completeness auto
termination
  by (relation "measure (\<lambda>(t, x). longer_names t x)") (auto dest: longer_names_less)

declare findAvailibleAlias_loop.simps [simp del] candidates.simps [simp del]

lemma loop_last_candidates:
  "findAvailibleAlias_loop t x = last (candidates t x)"
proof (induction t x rule: candidates.induct)
  case (1 t x)
  show ?case
  proof (cases "findIdentifiers t (CHR ''_'' # x) = []")
    case True
    then show ?thesis
      by (subst findAvailibleAlias_loop.simps, subst candidates.simps) (simp add: Let_def)
  next
    case False
    have ne: "candidates t (CHR ''_'' # x) \<noteq> []"
      by (subst candidates.simps) (simp add: Let_def)
    from False 1 ne show ?thesis
      by (subst findAvailibleAlias_loop.simps, subst candidates.simps) (simp add: Let_def)
  qed
qed

lemma candidates_nth:
  "i < length (candidates t x) \<Longrightarrow> candidates t x ! i = replicate (Suc i) (CHR ''_'') @ x"
proof (induction t x arbitrary: i rule: candidates.induct)
  case (1 t x)
  show ?case
  proof (cases "findIdentifiers t (CHR ''_'' # x) = []")
    case True
    then have "candidates t x = [CHR ''_'' # x]"
      by (subst candidates.simps) (simp add: Let_def)
    with 1(2) show ?thesis by simp
  next
    case False
    let ?cs = "candidates t (CHR ''_'' # x)"
    have eq: "candidates t x = (CHR ''_'' # x) # ?cs"
      using False by (subst candidates.simps) (simp add: Let_def)
    show ?thesis
    proof (cases i)
      case 0
      then show ?thesis by (simp add: eq)
    next
      case (Suc k)
      with 1(2) eq have "k < length ?cs" by simp
      then have "?cs ! k = replicate (Suc k) (CHR ''_'') @ CHR ''_'' # x"
        using 1(1) False by simp
      then show ?thesis
        using Suc eq by (simp add: replicate_app_Cons_same)
    qed
  qed
qed

lemma candidates_butlast_present:
  "c \<in> set (butlast (candidates t x)) \<Longrightarrow> c \<in> identifierNames t"
proof (induction t x rule: candidates.induct)
  case (1 t x)
  show ?case
  proof (cases "findIdentifiers t (CHR ''_'' # x) = []")
    case True
    with 1(2) show ?thesis by (subst (asm) candidates.simps) (simp add: Let_def)
  next
    case False
    have ne: "candidates t (CHR ''_'' # x) \<noteq> []"
      by (subst candidates.simps) (simp add: Let_def)
    from 1(2) False ne have "c = CHR ''_'' # x \<or> c \<in> set (butlast (candidates t (CHR ''_'' # x)))"
      by (subst (asm) candidates.simps) (simp add: Let_def)
    with 1(1) False show ?thesis
      by (auto simp: findIdentifiers_empty_iff)
  qed
qed

lemma last_candidates_free:
  "findIdentifiers t (last (candidates t x)) = []"
proof (induction t x rule: candidates.induct)
  case (1 t x)
  show ?case
  proof (cases "findIdentifiers t (CHR ''_'' # x) = []")
    case True
    then show ?thesis by (subst candidates.simps) (simp add: Let_def)
  next
    case False
    have ne: "candidates t (CHR ''_'' # x) \<noteq> []"
      by (subst candidates.simps) (simp add: Let_def)
    from False 1 ne show ?thesis by (subst candidates.simps) (simp add: Let_def)
  qed
qed


lemma candidates_nonempty: "candidates t x \<noteq> []"
  by (subst candidates.simps) (simp add: Let_def)

lemma candidates_length_nth:
  "i < length (candidates t x) \<Longrightarrow> length (candidates t x ! i) = Suc i + length x"
  by (simp add: candidates_nth)

lemma candidates_sorted: "sorted_wrt (\<lambda>a b. length a < length b) (candidates t x)"
  by (simp add: sorted_wrt_iff_nth_less candidates_length_nth)

lemma candidates_distinct: "distinct (candidates t x)"
proof -
  have "i < length (candidates t x) \<Longrightarrow> j < length (candidates t x) \<Longrightarrow> i \<noteq> j
        \<Longrightarrow> candidates t x ! i \<noteq> candidates t x ! j" for i j
    using candidates_length_nth[of i t x] candidates_length_nth[of j t x] by auto
  then show ?thesis by (simp add: distinct_conv_nth)
qed

definition prefixed_variants :: "ast \<Rightarrow> string \<Rightarrow> string set" where
  "prefixed_variants t x =
     {v \<in> identifierNames t. \<exists>k>0. v = replicate k (CHR ''_'') @ x}"

lemma candidates_are_variants: "c \<in> set (candidates t x) \<Longrightarrow> \<exists>k>0. c = replicate k (CHR ''_'') @ x"
proof -
  assume "c \<in> set (candidates t x)"
  then obtain i where "i < length (candidates t x)" "c = candidates t x ! i"
    by (auto simp: in_set_conv_nth)
  then have "0 < Suc i \<and> c = replicate (Suc i) (CHR ''_'') @ x"
    by (simp add: candidates_nth)
  then show ?thesis by blast
qed

lemma candidates_bound: "length (candidates t x) \<le> card (prefixed_variants t x) + 1"
proof -
  let ?cs = "candidates t x"
  have sub: "set (butlast ?cs) \<subseteq> prefixed_variants t x"
    unfolding prefixed_variants_def
    using candidates_butlast_present[of _ t x] candidates_are_variants[of _ t x]
    by (auto dest: in_set_butlastD)
  have fin: "finite (prefixed_variants t x)"
    unfolding prefixed_variants_def by (simp add: finite_identifierNames)
  have "distinct (butlast ?cs)" by (simp add: candidates_distinct distinct_butlast)
  then have "length (butlast ?cs) = card (set (butlast ?cs))"
    by (simp add: distinct_card)
  also have "\<dots> \<le> card (prefixed_variants t x)"
    using sub fin by (rule card_mono[rotated])
  finally show ?thesis by simp
qed

text \<open>
  Claim C6. For every tree \<open>T\<close> and name \<open>N\<close>, the alias returned by
  \<open>findAvailibleAlias T N\<close> is \<open>N\<close> with one or more underscores prepended,
  \<open>findIdentifiers T alias\<close> is empty, and the alias is the name of no identifier of
  \<open>T\<close>.
\<close>

theorem findAvailibleAlias_fresh:
  "(\<exists>k>0. findAvailibleAlias T N = replicate k (CHR ''_'') @ N)
   \<and> findIdentifiers T (findAvailibleAlias T N) = []
   \<and> findAvailibleAlias T N \<notin> identifierNames T"
proof -
  have "last (candidates T N) \<in> set (candidates T N)"
    by (simp add: candidates_nonempty)
  then have "\<exists>k>0. last (candidates T N) = replicate k (CHR ''_'') @ N"
    by (rule candidates_are_variants)
  moreover have "findIdentifiers T (last (candidates T N)) = []"
    by (rule last_candidates_free)
  ultimately show ?thesis
    by (simp add: findAvailibleAlias_def loop_last_candidates findIdentifiers_empty_iff)
qed

text \<open>
  Claim C7. The loop of \<open>findAvailibleAlias T N\<close> terminates (the function is total),
  the number of its iterations, which is the number of names it tries, is at most one
  more than the number of distinct underscore-prefixed variants of \<open>N\<close> that occur as
  identifiers in \<open>T\<close>, and every name tried is strictly longer than the ones before.
\<close>

theorem findAvailibleAlias_terminates_bounded:
  "findAvailibleAlias T N = last (candidates T N)
   \<and> length (candidates T N) \<le> card (prefixed_variants T N) + 1
   \<and> sorted_wrt (\<lambda>a b. length a < length b) (candidates T N)"
  using candidates_bound[of T N]
  by (simp add: findAvailibleAlias_def loop_last_candidates candidates_sorted)

section \<open>The scope-aware renamer\<close>

text \<open>
  \<open>name_of\<close> reads \<^verbatim>\<open>node.name\<close> (undefined on a node that is no identifier),
  \<open>set_name\<close> is the assignment \<^verbatim>\<open>node.name = alias\<close> and \<open>set_shorthand_false\<close> the
  assignment \<^verbatim>\<open>parent.shorthand = false\<close>. The parent and the grandparent of a path are
  \<^verbatim>\<open>identifierPath.parentPath.node\<close> and \<^verbatim>\<open>identifierPath.parentPath.parentPath.node\<close>;
  the root of a jscodeshift tree is its File node, so a Property is never the root.
\<close>

definition name_of :: "node \<Rightarrow> string option" where
  "name_of n = (case n of Identifier x \<Rightarrow> Some x | _ \<Rightarrow> None)"

definition set_name :: "string \<Rightarrow> node \<Rightarrow> node" where
  "set_name a n = (case n of Identifier x \<Rightarrow> Identifier a | _ \<Rightarrow> n)"

definition set_shorthand_false :: "node \<Rightarrow> node" where
  "set_shorthand_false n = (case n of Property k v sh \<Rightarrow> Property k v False | _ \<Rightarrow> n)"

definition parent_of :: "ast \<Rightarrow> path \<Rightarrow> node option" where
  "parent_of t p = (if p = [] then None else get t (butlast p))"

definition grandparent_of :: "ast \<Rightarrow> path \<Rightarrow> node option" where
  "grandparent_of t p = (if length p < 2 then None else get t (butlast (butlast p)))"

definition ImportSpecifier_check :: "node option \<Rightarrow> bool" where
  "ImportSpecifier_check n = (case n of Some (ImportSpecifier l i) \<Rightarrow> True | _ \<Rightarrow> False)"

definition Property_check :: "node option \<Rightarrow> bool" where
  "Property_check n = (case n of Some (Property k v sh) \<Rightarrow> True | _ \<Rightarrow> False)"

definition ObjectPattern_check :: "node option \<Rightarrow> bool" where
  "ObjectPattern_check n = (case n of Some (ObjectPattern ps) \<Rightarrow> True | _ \<Rightarrow> False)"

definition ObjectExpression_check :: "node option \<Rightarrow> bool" where
  "ObjectExpression_check n = (case n of Some (ObjectExpression ps) \<Rightarrow> True | _ \<Rightarrow> False)"

definition MemberExpression_check :: "node option \<Rightarrow> bool" where
  "MemberExpression_check n = (case n of Some (MemberExpression ob pr c) \<Rightarrow> True | _ \<Rightarrow> False)"

definition ExportSpecifier_check :: "node option \<Rightarrow> bool" where
  "ExportSpecifier_check n = (case n of Some (ExportSpecifier l e) \<Rightarrow> True | _ \<Rightarrow> False)"

definition exported_name :: "node option \<Rightarrow> string option" where
  "exported_name n = (case n of Some (ExportSpecifier l e) \<Rightarrow> name_of e | _ \<Rightarrow> None)"

definition local_name :: "node option \<Rightarrow> string option" where
  "local_name n = (case n of Some (ExportSpecifier (Some l) e) \<Rightarrow> name_of l | _ \<Rightarrow> None)"

definition or_empty :: "string option \<Rightarrow> string" where
  "or_empty x = (case x of None \<Rightarrow> [] | Some s \<Rightarrow> s)"

text \<open>
  \<^verbatim>\<open>maybeRenameNode\<close> calls \<^verbatim>\<open>renameIdentifiers\<close>, which calls it for every matching
  path. The recursion is not structural and need not end, so the model unties it: the
  body of each function takes the function to call back as the argument \<open>rename\<close>,
  and \<open>renameIdentifiers fuel\<close> allows \<open>fuel\<close> nested calls of \<^verbatim>\<open>renameIdentifiers\<close>.
  The result \<open>None\<close> says that the call did not return within that nesting depth. The tree
  is mutated in place in the source; here every function returns the updated tree.
  \<^verbatim>\<open>parent.local?.name || ''\<close> is \<open>or_empty (local_name parent)\<close>, and
  \<^verbatim>\<open>newName || findAvailibleAlias(ast, origName)\<close> takes \<open>newName\<close> unless it is undefined
  or empty.
\<close>

type_synonym renamer = "ast \<Rightarrow> string \<Rightarrow> string option \<Rightarrow> (ast \<times> string option) option"

definition maybeRenameNode :: "renamer \<Rightarrow> ast \<Rightarrow> path \<Rightarrow> string \<Rightarrow> ast option" where
  "maybeRenameNode rename ast identifierPath alias =
     (let parent = parent_of ast identifierPath;
          grandparent = grandparent_of ast identifierPath;
          field = last identifierPath
      in if ImportSpecifier_check parent \<and> field = Imported then Some ast
         else if Property_check parent \<and> ObjectPattern_check grandparent \<and> field = Key then Some ast
         else
           let ast1 = (if Property_check parent \<and> ObjectPattern_check grandparent
                       then modify set_shorthand_false (butlast identifierPath) ast else ast)
           in if Property_check parent \<and> ObjectExpression_check grandparent \<and> field = Key
              then Some ast1
              else
                let ast2 = (if Property_check parent \<and> ObjectExpression_check grandparent
                            then modify set_shorthand_false (butlast identifierPath) ast1 else ast1)
                in if MemberExpression_check parent \<and> field = PropertyF then Some ast2
                   else if ExportSpecifier_check parent
                          \<and> exported_name parent \<noteq> local_name parent \<and> field = Exported
                   then
                     (let currentLocalName = or_empty (local_name parent)
                      in case rename ast2 currentLocalName (Some alias) of
                           None \<Rightarrow> None
                         | Some (ast3, r) \<Rightarrow> Some (modify (set_name alias) identifierPath ast3))
                   else Some (modify (set_name alias) identifierPath ast2))"

fun forEach :: "('a \<Rightarrow> 's \<Rightarrow> 's option) \<Rightarrow> 'a list \<Rightarrow> 's \<Rightarrow> 's option" where
  "forEach f [] s = Some s"
| "forEach f (x # xs) s = (case f x s of None \<Rightarrow> None | Some s' \<Rightarrow> forEach f xs s')"

definition renameIdentifiers_body :: "renamer \<Rightarrow> renamer" where
  "renameIdentifiers_body rename ast origName newName =
     (let matchingNodes = findIdentifiers ast origName
      in if matchingNodes \<noteq> [] then
           (let alias = (if or_empty newName \<noteq> [] then or_empty newName
                         else findAvailibleAlias ast origName)
            in case forEach (\<lambda>nodePath a. maybeRenameNode rename a nodePath alias) matchingNodes ast of
                 None \<Rightarrow> None
               | Some ast' \<Rightarrow> Some (ast', Some alias))
         else Some (ast, None))"

primrec renameIdentifiers :: "nat \<Rightarrow> renamer" where
  "renameIdentifiers 0 = (\<lambda>ast origName newName. None)"
| "renameIdentifiers (Suc fuel) = renameIdentifiers_body (renameIdentifiers fuel)"

section \<open>Facts about paths and in-place edits\<close>

text \<open>
  The kind of a node is its constructor. An edit that assigns a name or a shorthand flag
  changes neither the kind of any node nor the paths of the tree, which is why a node path
  found before a rename is still valid after it.
\<close>

datatype kind =
    KIdentifier | KImportSpecifier | KProperty | KObjectPattern | KObjectExpression
  | KMemberExpression | KExportSpecifier | KVariableDeclarator | KVariableDeclaration
  | KOther | KAbsent

definition kind :: "node \<Rightarrow> kind" where
  "kind n =
     (case n of
        Identifier x \<Rightarrow> KIdentifier
      | ImportSpecifier l i \<Rightarrow> KImportSpecifier
      | Property k v sh \<Rightarrow> KProperty
      | ObjectPattern ps \<Rightarrow> KObjectPattern
      | ObjectExpression ps \<Rightarrow> KObjectExpression
      | MemberExpression ob pr c \<Rightarrow> KMemberExpression
      | ExportSpecifier l e \<Rightarrow> KExportSpecifier
      | VariableDeclarator i init \<Rightarrow> KVariableDeclarator
      | VariableDeclaration ds \<Rightarrow> KVariableDeclaration
      | Other k cs \<Rightarrow> KOther
      | Absent \<Rightarrow> KAbsent)"

definition kind_at :: "ast \<Rightarrow> path \<Rightarrow> kind option" where
  "kind_at t p = map_option kind (get t p)"

definition ident_at :: "ast \<Rightarrow> path \<Rightarrow> string option" where
  "ident_at t p = (case get t p of None \<Rightarrow> None | Some n \<Rightarrow> name_of n)"

lemma map_of_elems:
  "map_of (elems ns) s = (case s of Elem i \<Rightarrow> if i < length ns then Some (ns ! i) else None | _ \<Rightarrow> None)"
proof (cases s)
  case (Elem i)
  have d: "distinct (map Elem [0..<length ns])"
    by (simp add: distinct_map inj_on_def)
  show ?thesis
  proof (cases "i < length ns")
    case True
    then have "map_of (zip (map Elem [0..<length ns]) ns) (map Elem [0..<length ns] ! i) = Some (ns ! i)"
      using d by (intro map_of_zip_nth) simp_all
    with True Elem show ?thesis by (simp add: elems_def)
  next
    case False
    then have "Elem i \<notin> set (map Elem [0..<length ns])" by auto
    then have "map_of (zip (map Elem [0..<length ns]) ns) (Elem i) = None"
      by (subst map_of_zip_is_None) simp_all
    with False Elem show ?thesis by (simp add: elems_def)
  qed
qed (auto simp: elems_def map_of_eq_None_iff dest!: set_zip_leftD)

lemma child_Elem:
  "child (ObjectPattern ns) s = (case s of Elem i \<Rightarrow> if i < length ns then Some (ns ! i) else None | _ \<Rightarrow> None)"
  "child (ObjectExpression ns) s = (case s of Elem i \<Rightarrow> if i < length ns then Some (ns ! i) else None | _ \<Rightarrow> None)"
  "child (VariableDeclaration ns) s = (case s of Elem i \<Rightarrow> if i < length ns then Some (ns ! i) else None | _ \<Rightarrow> None)"
  "child (Other k ns) s = (case s of Elem i \<Rightarrow> if i < length ns then Some (ns ! i) else None | _ \<Rightarrow> None)"
  by (simp_all add: child_def map_of_elems)

lemma child_fields:
  "child (Identifier x) s = None"
  "child Absent s = None"
  "child (ImportSpecifier l i) s = (if s = Local then l else if s = Imported then Some i else None)"
  "child (ExportSpecifier l e) s = (if s = Local then l else if s = Exported then Some e else None)"
  "child (Property k v sh) s = (if s = Key then Some k else if s = Val then Some v else None)"
  "child (MemberExpression ob pr c) s = (if s = Object then Some ob else if s = PropertyF then Some pr else None)"
  "child (VariableDeclarator i init) s = (if s = Id then Some i else if s = Init then init else None)"
  by (auto simp: child_def opt_field_def split: option.splits)

lemmas child_simps = child_Elem child_fields

lemma child_with_child:
  "child (with_child n s c) s' = (if s' = s \<and> child n s \<noteq> None then Some c else child n s')"
  by (cases n; cases s; cases s')
     (auto simp: with_child_def child_simps set_elem_def set_opt_def nth_list_update split: option.splits)

lemma kind_with_child: "kind (with_child n s c) = kind n"
  by (cases n) (auto simp: with_child_def kind_def)

lemma name_of_with_child: "name_of (with_child n s c) = name_of n"
  by (cases n) (auto simp: with_child_def name_of_def)


definition local_edit :: "(node \<Rightarrow> node) \<Rightarrow> bool" where
  "local_edit f = (\<forall>n. kind (f n) = kind n \<and> (\<forall>s. child (f n) s = child n s))"

lemma local_edit_set_name: "local_edit (set_name a)"
  unfolding local_edit_def
  by (auto simp: set_name_def kind_def child_simps split: node.splits)

lemma local_edit_set_shorthand_false: "local_edit set_shorthand_false"
  unfolding local_edit_def
  by (auto simp: set_shorthand_false_def kind_def child_simps split: node.splits)

lemma get_edit_below:
  assumes "local_edit f" "q \<noteq> []"
  shows "get (f t) q = get t q"
  using assms by (cases q) (auto simp: local_edit_def)

lemma get_modify_other:
  assumes obs: "\<And>n s c. obs (with_child n s c) = obs n"
  assumes "local_edit f" "q \<noteq> p"
  shows "map_option obs (get (modify f p t) q) = map_option obs (get t q)"
  using assms(2,3)
proof (induction p arbitrary: t q)
  case Nil
  then show ?case by (simp add: get_edit_below)
next
  case (Cons s p)
  show ?case
  proof (cases "child t s")
    case None
    then show ?thesis by simp
  next
    case (Some c)
    show ?thesis
    proof (cases q)
      case Nil
      then show ?thesis using Some by (simp add: obs)
    next
      case (Cons s' q')
      show ?thesis
      proof (cases "s' = s")
        case True
        with Cons Cons.prems have "q' \<noteq> p" by simp
        then have "map_option obs (get (modify f p c) q') = map_option obs (get c q')"
          using Cons.IH Cons.prems(1) by blast
        then show ?thesis using Some Cons True by (simp add: child_with_child)
      next
        case False
        then show ?thesis using Some Cons by (simp add: child_with_child)
      qed
    qed
  qed
qed

lemma get_modify_same:
  assumes "local_edit f"
  shows "get (modify f p t) p = map_option f (get t p)"
proof (induction p arbitrary: t)
  case Nil
  then show ?case by simp
next
  case (Cons s p)
  then show ?case by (cases "child t s") (simp_all add: child_with_child)
qed

lemma kind_at_modify:
  assumes "local_edit f"
  shows "kind_at (modify f p t) q = kind_at t q"
proof (cases "q = p")
  case True
  then show ?thesis
    using assms by (simp add: kind_at_def get_modify_same option.map_comp local_edit_def comp_def)
next
  case False
  then show ?thesis
    unfolding kind_at_def using assms by (intro get_modify_other) (simp_all add: kind_with_child)
qed

lemma ident_at_alt: "ident_at t p = Option.bind (map_option name_of (get t p)) id"
  by (simp add: ident_at_def split: option.splits)

lemma ident_at_modify_other:
  assumes "local_edit f" "q \<noteq> p"
  shows "ident_at (modify f p t) q = ident_at t q"
proof -
  have "map_option name_of (get (modify f p t) q) = map_option name_of (get t q)"
    using assms by (intro get_modify_other) (simp_all add: name_of_with_child)
  then show ?thesis by (simp add: ident_at_alt)
qed

lemma ident_at_set_shorthand: "ident_at (modify set_shorthand_false p t) q = ident_at t q"
proof (cases "q = p")
  case True
  have "name_of (set_shorthand_false n) = name_of n" for n
    by (cases n) (simp_all add: set_shorthand_false_def name_of_def)
  then show ?thesis
    using True by (simp add: ident_at_def get_modify_same local_edit_set_shorthand_false split: option.splits)
next
  case False
  then show ?thesis by (simp add: ident_at_modify_other local_edit_set_shorthand_false)
qed

lemma ident_at_set_name:
  "ident_at (modify (set_name a) p t) q =
     (if q = p \<and> ident_at t p \<noteq> None then Some a else ident_at t q)"
proof (cases "q = p")
  case True
  have "name_of (set_name a n) = (if name_of n \<noteq> None then Some a else None)" for n
    by (cases n) (simp_all add: set_name_def name_of_def)
  then show ?thesis
    using True by (simp add: ident_at_def get_modify_same local_edit_set_name split: option.splits)
next
  case False
  then show ?thesis by (simp add: ident_at_modify_other local_edit_set_name)
qed

lemma distinct_subnodes: "distinct (map fst (subnodes n))"
  by (cases n) (auto simp: elems_def opt_field_def distinct_map inj_on_def split: option.splits)

lemma in_subnodes_iff: "(s, c) \<in> set (subnodes n) \<longleftrightarrow> child n s = Some c"
  by (simp add: child_def distinct_subnodes)

lemma set_descendants:
  "set (descendants n) =
     (\<Union>sc \<in> set (subnodes n).
         insert ([fst sc], snd sc) ((\<lambda>pd. (fst sc # fst pd, snd pd)) ` set (descendants (snd sc))))"
  by (subst descendants.simps) (simp add: case_prod_beta)

lemma in_descendants_Cons:
  "(s # q, d) \<in> set (descendants n) \<longleftrightarrow>
     (\<exists>c. (s, c) \<in> set (subnodes n) \<and> ((q = [] \<and> d = c) \<or> (q, d) \<in> set (descendants c)))"
proof
  assume "(s # q, d) \<in> set (descendants n)"
  then obtain sc where sc: "sc \<in> set (subnodes n)"
    and mem: "(s # q, d) = ([fst sc], snd sc)
              \<or> (s # q, d) \<in> (\<lambda>pd. (fst sc # fst pd, snd pd)) ` set (descendants (snd sc))"
    unfolding set_descendants[of n] by blast
  from mem have "fst sc = s" by auto
  with sc have "(s, snd sc) \<in> set (subnodes n)" by (metis prod.collapse)
  moreover from mem have "(q = [] \<and> d = snd sc) \<or> (q, d) \<in> set (descendants (snd sc))"
    by auto
  ultimately show "\<exists>c. (s, c) \<in> set (subnodes n) \<and> ((q = [] \<and> d = c) \<or> (q, d) \<in> set (descendants c))"
    by blast
next
  assume "\<exists>c. (s, c) \<in> set (subnodes n) \<and> ((q = [] \<and> d = c) \<or> (q, d) \<in> set (descendants c))"
  then obtain c where c: "(s, c) \<in> set (subnodes n)"
    and alt: "(q = [] \<and> d = c) \<or> (q, d) \<in> set (descendants c)" by blast
  from alt have "(s # q, d) \<in> insert ([fst (s, c)], snd (s, c))
                   ((\<lambda>pd. (fst (s, c) # fst pd, snd pd)) ` set (descendants (snd (s, c))))"
    by (auto simp: image_iff intro: bexI[of _ "(q, d)"])
  with c show "(s # q, d) \<in> set (descendants n)"
    unfolding set_descendants[of n] by blast
qed

lemma not_Nil_in_descendants: "([], d) \<notin> set (descendants n)"
  unfolding set_descendants[of n] by auto

lemma in_descendants_iff:
  "(p, d) \<in> set (descendants n) \<longleftrightarrow> p \<noteq> [] \<and> get n p = Some d"
proof (induction p arbitrary: n)
  case Nil
  then show ?case by (simp add: not_Nil_in_descendants)
next
  case (Cons s q)
  show ?case
  proof (cases "q = []")
    case True
    then show ?thesis
      by (auto simp: in_descendants_Cons in_subnodes_iff not_Nil_in_descendants split: option.splits)
  next
    case False
    then show ?thesis
      using Cons[of _ ] by (auto simp: in_descendants_Cons in_subnodes_iff split: option.splits)
  qed
qed

lemma in_findIdentifiers_iff:
  "p \<in> set (findIdentifiers t x) \<longleftrightarrow> p \<noteq> [] \<and> ident_at t p = Some x"
proof -
  have "p \<in> set (findIdentifiers t x) \<longleftrightarrow> (p, Identifier x) \<in> set (descendants t)"
  proof
    assume "p \<in> set (findIdentifiers t x)"
    then obtain d where "(p, d) \<in> set (descendants t)" "identifierFilter x d"
      unfolding findIdentifiers_def ast_find_def by auto
    then show "(p, Identifier x) \<in> set (descendants t)"
      by (cases d) (simp_all add: identifierFilter_def)
  next
    assume "(p, Identifier x) \<in> set (descendants t)"
    then show "p \<in> set (findIdentifiers t x)"
      unfolding findIdentifiers_def ast_find_def identifierFilter_def by force
  qed
  also have "\<dots> \<longleftrightarrow> p \<noteq> [] \<and> ident_at t p = Some x"
    by (auto simp: in_descendants_iff ident_at_def name_of_def split: option.splits node.splits)
  finally show ?thesis .
qed

section \<open>The decision table of the renamer\<close>

text \<open>
  \<open>do_not_rename\<close> collects the four early returns of \<^verbatim>\<open>maybeRenameNode\<close>: the
  imported side of an import specifier, the key of a property of an object pattern or of
  an object literal, and the property of a member expression. \<open>shorthand_fixup\<close> is the
  assignment to \<^verbatim>\<open>parent.shorthand\<close> on the way, and \<open>reenters\<close> the condition under
  which \<^verbatim>\<open>renameIdentifiers\<close> is called again for the local name of an export specifier.
\<close>

definition do_not_rename :: "ast \<Rightarrow> path \<Rightarrow> bool" where
  "do_not_rename t p =
     (let parent = parent_of t p; grandparent = grandparent_of t p; field = last p
      in (ImportSpecifier_check parent \<and> field = Imported)
         \<or> (Property_check parent \<and> ObjectPattern_check grandparent \<and> field = Key)
         \<or> (Property_check parent \<and> ObjectExpression_check grandparent \<and> field = Key)
         \<or> (MemberExpression_check parent \<and> field = PropertyF))"

definition shorthand_fixup :: "ast \<Rightarrow> path \<Rightarrow> ast" where
  "shorthand_fixup t p =
     (if Property_check (parent_of t p)
         \<and> (ObjectPattern_check (grandparent_of t p) \<or> ObjectExpression_check (grandparent_of t p))
      then modify set_shorthand_false (butlast p) t else t)"

definition reenters :: "ast \<Rightarrow> path \<Rightarrow> bool" where
  "reenters t p =
     (ExportSpecifier_check (parent_of t p)
      \<and> exported_name (parent_of t p) \<noteq> local_name (parent_of t p) \<and> last p = Exported)"

lemma check_kind:
  "ImportSpecifier_check n \<longleftrightarrow> map_option kind n = Some KImportSpecifier"
  "Property_check n \<longleftrightarrow> map_option kind n = Some KProperty"
  "ObjectPattern_check n \<longleftrightarrow> map_option kind n = Some KObjectPattern"
  "ObjectExpression_check n \<longleftrightarrow> map_option kind n = Some KObjectExpression"
  "MemberExpression_check n \<longleftrightarrow> map_option kind n = Some KMemberExpression"
  "ExportSpecifier_check n \<longleftrightarrow> map_option kind n = Some KExportSpecifier"
  by (auto simp: ImportSpecifier_check_def Property_check_def ObjectPattern_check_def
        ObjectExpression_check_def MemberExpression_check_def ExportSpecifier_check_def kind_def
      split: option.splits node.splits)

lemma checks_exclusive:
  "Property_check n \<Longrightarrow> \<not> ImportSpecifier_check n \<and> \<not> MemberExpression_check n \<and> \<not> ExportSpecifier_check n"
  "MemberExpression_check n \<Longrightarrow> \<not> ExportSpecifier_check n"
  "ObjectPattern_check n \<Longrightarrow> \<not> ObjectExpression_check n"
  by (auto simp: check_kind)

lemma maybeRenameNode_exempt:
  assumes "do_not_rename t p"
  shows "maybeRenameNode rn t p a = Some t"
proof -
  let ?par = "parent_of t p" and ?gp = "grandparent_of t p"
  from assms consider
      (imp) "ImportSpecifier_check ?par" "last p = Imported"
    | (pat) "Property_check ?par" "ObjectPattern_check ?gp" "last p = Key"
    | (lit) "Property_check ?par" "ObjectExpression_check ?gp" "last p = Key"
    | (mem) "MemberExpression_check ?par" "last p = PropertyF"
    unfolding do_not_rename_def Let_def by blast
  then show ?thesis
  proof cases
    case imp
    then show ?thesis by (simp add: maybeRenameNode_def)
  next
    case pat
    then show ?thesis by (simp add: maybeRenameNode_def)
  next
    case lit
    then have "\<not> ObjectPattern_check ?gp" by (auto simp: check_kind)
    with lit show ?thesis by (simp add: maybeRenameNode_def)
  next
    case mem
    then have "\<not> Property_check ?par" by (auto simp: check_kind)
    with mem show ?thesis by (simp add: maybeRenameNode_def)
  qed
qed

lemma maybeRenameNode_rename:
  assumes "\<not> do_not_rename t p"
  shows "maybeRenameNode rn t p a =
           (if reenters t p
            then (case rn (shorthand_fixup t p) (or_empty (local_name (parent_of t p))) (Some a) of
                    None \<Rightarrow> None
                  | Some (t3, r) \<Rightarrow> Some (modify (set_name a) p t3))
            else Some (modify (set_name a) p (shorthand_fixup t p)))"
proof -
  let ?par = "parent_of t p" and ?gp = "grandparent_of t p"
  from assms have e1: "(ImportSpecifier_check ?par \<and> last p = Imported) = False"
    and e2: "(Property_check ?par \<and> ObjectPattern_check ?gp \<and> last p = Key) = False"
    and e3: "(Property_check ?par \<and> ObjectExpression_check ?gp \<and> last p = Key) = False"
    and e4: "(MemberExpression_check ?par \<and> last p = PropertyF) = False"
    unfolding do_not_rename_def Let_def by blast+
  have fixup: "(if Property_check ?par \<and> ObjectExpression_check ?gp
                then modify set_shorthand_false (butlast p)
                       (if Property_check ?par \<and> ObjectPattern_check ?gp
                        then modify set_shorthand_false (butlast p) t else t)
                else (if Property_check ?par \<and> ObjectPattern_check ?gp
                      then modify set_shorthand_false (butlast p) t else t)) = shorthand_fixup t p"
    using checks_exclusive(3)[of ?gp] by (auto simp: shorthand_fixup_def)
  show ?thesis
    unfolding maybeRenameNode_def Let_def reenters_def e1 e2 e3 e4 fixup if_False ..
qed


section \<open>What a returning rename does to the tree\<close>

text \<open>
  \<open>evolves a t t'\<close>: the tree \<open>t'\<close> has the nodes of \<open>t\<close>, of the same kinds at the same
  paths, and every identifier of \<open>t\<close> has kept its name or is named \<open>a\<close>.
  \<open>all_renamed a L t0 t\<close>: every identifier named \<open>L\<close> in \<open>t0\<close>, outside the positions of
  \<open>do_not_rename\<close>, is named \<open>a\<close> in \<open>t\<close>. \<open>rename_ok\<close> is what every returning call
  of the renamer guarantees; it holds for every nesting depth.
\<close>

lemma get_append:
  "get t (q @ [s]) = (case get t q of None \<Rightarrow> None | Some n \<Rightarrow> child n s)"
  by (induction q arbitrary: t) (auto split: option.splits)

lemma parent_of_kind:
  "map_option kind (parent_of t p) = (if p = [] then None else kind_at t (butlast p))"
  "map_option kind (grandparent_of t p) = (if length p < 2 then None else kind_at t (butlast (butlast p)))"
  by (simp_all add: parent_of_def grandparent_of_def kind_at_def)

definition same_kinds :: "ast \<Rightarrow> ast \<Rightarrow> bool" where
  "same_kinds t t' = (\<forall>q. kind_at t' q = kind_at t q)"

lemma same_kinds_checks:
  assumes "same_kinds t t'"
  shows "map_option kind (parent_of t' p) = map_option kind (parent_of t p)"
    and "map_option kind (grandparent_of t' p) = map_option kind (grandparent_of t p)"
  using assms by (simp_all add: parent_of_kind same_kinds_def)

lemma same_kinds_do_not_rename:
  assumes "same_kinds t t'"
  shows "do_not_rename t' p = do_not_rename t p"
  unfolding do_not_rename_def Let_def check_kind
  by (simp add: same_kinds_checks[OF assms])

lemma ident_at_kind: "ident_at t q \<noteq> None \<longleftrightarrow> kind_at t q = Some KIdentifier"
  by (auto simp: ident_at_def kind_at_def name_of_def kind_def split: option.splits node.splits)

lemma same_kinds_ident:
  "same_kinds t t' \<Longrightarrow> ident_at t' q = None \<longleftrightarrow> ident_at t q = None"
  using ident_at_kind[of t q] ident_at_kind[of t' q] by (auto simp: same_kinds_def)

definition evolves :: "string \<Rightarrow> ast \<Rightarrow> ast \<Rightarrow> bool" where
  "evolves a t t' =
     (same_kinds t t' \<and>
      (\<forall>q x. ident_at t q = Some x \<longrightarrow> ident_at t' q = Some x \<or> ident_at t' q = Some a))"

lemma evolves_refl: "evolves a t t"
  by (simp add: evolves_def same_kinds_def)

lemma evolves_trans: "evolves a t t' \<Longrightarrow> evolves a t' t'' \<Longrightarrow> evolves a t t''"
  unfolding evolves_def same_kinds_def by (metis)

lemma evolves_same_kinds: "evolves a t t' \<Longrightarrow> same_kinds t t'"
  by (simp add: evolves_def)

lemma evolves_keeps_alias: "evolves a t t' \<Longrightarrow> ident_at t q = Some a \<Longrightarrow> ident_at t' q = Some a"
  unfolding evolves_def by blast

lemma evolves_set_name: "evolves a t (modify (set_name a) p t)"
  unfolding evolves_def same_kinds_def
  by (auto simp: kind_at_modify local_edit_set_name ident_at_set_name)

lemma same_kinds_shorthand_fixup: "same_kinds t (shorthand_fixup t p)"
  by (simp add: same_kinds_def shorthand_fixup_def kind_at_modify local_edit_set_shorthand_false)

lemma ident_at_shorthand_fixup: "ident_at (shorthand_fixup t p) q = ident_at t q"
  by (simp add: shorthand_fixup_def ident_at_set_shorthand)

lemma evolves_shorthand_fixup: "evolves a t (shorthand_fixup t p)"
  by (simp add: evolves_def same_kinds_shorthand_fixup ident_at_shorthand_fixup)

definition grouped :: "string \<Rightarrow> string \<Rightarrow> ast \<Rightarrow> ast \<Rightarrow> bool" where
  "grouped a L t0 t =
     ((\<forall>q. ident_at t0 q = Some L \<longrightarrow> ident_at t q = Some L)
      \<or> (\<forall>q. q \<noteq> [] \<and> ident_at t0 q = Some L \<and> \<not> do_not_rename t0 q \<longrightarrow> ident_at t q = Some a))"

definition all_renamed :: "string \<Rightarrow> string \<Rightarrow> ast \<Rightarrow> ast \<Rightarrow> bool" where
  "all_renamed a L t0 t =
     (\<forall>q. q \<noteq> [] \<and> ident_at t0 q = Some L \<and> \<not> do_not_rename t0 q \<longrightarrow> ident_at t q = Some a)"

lemma all_renamed_grouped: "all_renamed a L t0 t \<Longrightarrow> grouped a L t0 t"
  by (simp add: all_renamed_def grouped_def)

lemma all_renamed_evolves: "all_renamed a L t0 t \<Longrightarrow> evolves a t t' \<Longrightarrow> all_renamed a L t0 t'"
  unfolding all_renamed_def by (blast dest: evolves_keeps_alias)

definition rename_ok :: "renamer \<Rightarrow> bool" where
  "rename_ok rn =
     (\<forall>t X a t' r. a \<noteq> [] \<longrightarrow> rn t X (Some a) = Some (t', r) \<longrightarrow>
        evolves a t t'
        \<and> all_renamed a X t t'
        \<and> (\<forall>t0 L. L \<noteq> a \<longrightarrow> evolves a t0 t \<longrightarrow> grouped a L t0 t \<longrightarrow> grouped a L t0 t'))"

lemma rename_okD:
  assumes "rename_ok rn" "a \<noteq> []" "rn t X (Some a) = Some (t', r)"
  shows "evolves a t t'" "all_renamed a X t t'"
    and "L \<noteq> a \<Longrightarrow> evolves a t0 t \<Longrightarrow> grouped a L t0 t \<Longrightarrow> grouped a L t0 t'"
  using assms unfolding rename_ok_def by blast+

lemma maybeRenameNode_cases:
  assumes "maybeRenameNode rn t p a = Some t'"
  obtains (exempt) "do_not_rename t p" "t' = t"
  | (plain) "\<not> do_not_rename t p" "\<not> reenters t p" "t' = modify (set_name a) p (shorthand_fixup t p)"
  | (nested) t3 r where "\<not> do_not_rename t p" "reenters t p"
      "rn (shorthand_fixup t p) (or_empty (local_name (parent_of t p))) (Some a) = Some (t3, r)"
      "t' = modify (set_name a) p t3"
proof (cases "do_not_rename t p")
  case True
  have "t' = t"
    using assms maybeRenameNode_exempt[OF True, of rn a] by simp
  then show ?thesis using True by (rule exempt[rotated])
next
  case False
  note eq = maybeRenameNode_rename[OF False, of rn a]
  show ?thesis
  proof (cases "reenters t p")
    case r: False
    have "t' = modify (set_name a) p (shorthand_fixup t p)"
      using assms r unfolding eq by simp
    then show ?thesis using False r by (rule plain[rotated 2])
  next
    case r: True
    from assms r obtain t3 r' where
      c: "rn (shorthand_fixup t p) (or_empty (local_name (parent_of t p))) (Some a) = Some (t3, r')"
      and t': "t' = modify (set_name a) p t3"
      unfolding eq by (auto split: option.splits)
    show ?thesis using False r c t' by (rule nested)
  qed
qed

lemma maybeRenameNode_evolves:
  assumes "rename_ok rn" "a \<noteq> []" "maybeRenameNode rn t p a = Some t'"
  shows "evolves a t t'"
  using assms(3)
proof (cases rule: maybeRenameNode_cases)
  case exempt
  then show ?thesis by (simp add: evolves_refl)
next
  case plain
  then show ?thesis
    using evolves_trans[OF evolves_shorthand_fixup evolves_set_name] by simp
next
  case (nested t3 r)
  have "evolves a (shorthand_fixup t p) t3"
    using rename_okD(1)[OF assms(1,2) nested(3)] .
  then show ?thesis
    using nested(4) evolves_trans[OF evolves_shorthand_fixup] evolves_trans[OF _ evolves_set_name]
    by blast
qed

lemma maybeRenameNode_sets_alias:
  assumes "rename_ok rn" "a \<noteq> []" "maybeRenameNode rn t p a = Some t'"
    and "\<not> do_not_rename t p" "ident_at t p \<noteq> None"
  shows "ident_at t' p = Some a"
  using assms(3)
proof (cases rule: maybeRenameNode_cases)
  case exempt
  with assms(4) show ?thesis by simp
next
  case plain
  then show ?thesis using assms(5) by (simp add: ident_at_set_name ident_at_shorthand_fixup)
next
  case (nested t3 r)
  have "evolves a (shorthand_fixup t p) t3"
    using rename_okD(1)[OF assms(1,2) nested(3)] .
  then have "ident_at t3 p \<noteq> None"
    using assms(5) same_kinds_ident[OF evolves_same_kinds, of a "shorthand_fixup t p" t3 p]
    by (simp add: ident_at_shorthand_fixup)
  then show ?thesis using nested(4) by (simp add: ident_at_set_name)
qed


lemma evolves_not_named:
  assumes "evolves a t t'" "L \<noteq> a" "ident_at t q \<noteq> Some L"
  shows "ident_at t' q \<noteq> Some L"
proof (cases "ident_at t q")
  case None
  then show ?thesis using same_kinds_ident[OF evolves_same_kinds[OF assms(1)], of q] by simp
next
  case (Some x)
  then have "ident_at t' q = Some x \<or> ident_at t' q = Some a"
    using assms(1) unfolding evolves_def by blast
  then show ?thesis using Some assms(2,3) by auto
qed

lemma grouped_set_name:
  assumes "grouped a L t0 t" "ident_at t p \<noteq> Some L"
  shows "grouped a L t0 (modify (set_name a) p t)"
proof -
  from assms(1) consider
      (same) "\<forall>q. ident_at t0 q = Some L \<longrightarrow> ident_at t q = Some L"
    | (renamed) "\<forall>q. q \<noteq> [] \<and> ident_at t0 q = Some L \<and> \<not> do_not_rename t0 q \<longrightarrow> ident_at t q = Some a"
    unfolding grouped_def by blast
  then show ?thesis
  proof cases
    case same
    have "ident_at (modify (set_name a) p t) q = Some L" if "ident_at t0 q = Some L" for q
    proof -
      from same that have "ident_at t q = Some L" by blast
      with assms(2) have "q \<noteq> p" by auto
      then show ?thesis using \<open>ident_at t q = Some L\<close> by (simp add: ident_at_set_name)
    qed
    then show ?thesis unfolding grouped_def by blast
  next
    case renamed
    then have "\<forall>q. q \<noteq> [] \<and> ident_at t0 q = Some L \<and> \<not> do_not_rename t0 q
                 \<longrightarrow> ident_at (modify (set_name a) p t) q = Some a"
      by (simp add: ident_at_set_name)
    then show ?thesis unfolding grouped_def by blast
  qed
qed

lemma grouped_shorthand_fixup: "grouped a L t0 (shorthand_fixup t p) = grouped a L t0 t"
  by (simp add: grouped_def ident_at_shorthand_fixup)

lemma maybeRenameNode_grouped:
  assumes "rename_ok rn" "a \<noteq> []" "maybeRenameNode rn t p a = Some t'"
    and "L \<noteq> a" "evolves a t0 t" "grouped a L t0 t" "ident_at t p \<noteq> Some L"
  shows "grouped a L t0 t'"
  using assms(3)
proof (cases rule: maybeRenameNode_cases)
  case exempt
  then show ?thesis using assms(6) by simp
next
  case plain
  have "ident_at (shorthand_fixup t p) p \<noteq> Some L"
    using assms(7) by (simp add: ident_at_shorthand_fixup)
  then show ?thesis
    using plain(3) assms(6) by (simp add: grouped_set_name grouped_shorthand_fixup)
next
  case (nested t3 r)
  let ?t2 = "shorthand_fixup t p"
  have e0: "evolves a t0 ?t2"
    using evolves_trans[OF assms(5) evolves_shorthand_fixup] .
  have g2: "grouped a L t0 ?t2"
    using assms(6) by (simp add: grouped_shorthand_fixup)
  have g3: "grouped a L t0 t3"
    using rename_okD(3)[OF assms(1,2) nested(3) assms(4) e0 g2] .
  have "evolves a t t3"
    using evolves_trans[OF evolves_shorthand_fixup rename_okD(1)[OF assms(1,2) nested(3)]] .
  then have "ident_at t3 p \<noteq> Some L"
    using assms(4,7) by (rule evolves_not_named)
  then show ?thesis using nested(4) g3 by (simp add: grouped_set_name)
qed

lemma forEach_Cons_Some:
  assumes "forEach f (x # xs) s = Some s'"
  obtains s1 where "f x s = Some s1" "forEach f xs s1 = Some s'"
  using assms by (auto split: option.splits)

lemma forEach_evolves:
  assumes "rename_ok rn" "a \<noteq> []"
    and "forEach (\<lambda>p s. maybeRenameNode rn s p a) ps s = Some s'"
  shows "evolves a s s'"
  using assms(3)
proof (induction ps arbitrary: s)
  case Nil
  then show ?case by (simp add: evolves_refl)
next
  case (Cons p ps)
  from Cons.prems obtain s1 where s1: "maybeRenameNode rn s p a = Some s1"
    and rest: "forEach (\<lambda>p s. maybeRenameNode rn s p a) ps s1 = Some s'"
    by (rule forEach_Cons_Some)
  show ?case
    using evolves_trans[OF maybeRenameNode_evolves[OF assms(1,2) s1] Cons.IH[OF rest]] .
qed

lemma forEach_sets_alias:
  assumes "rename_ok rn" "a \<noteq> []"
    and "forEach (\<lambda>p s. maybeRenameNode rn s p a) ps s = Some s'"
    and "q \<in> set ps" "ident_at s q \<noteq> None" "\<not> do_not_rename s q"
  shows "ident_at s' q = Some a"
  using assms(3-)
proof (induction ps arbitrary: s)
  case Nil
  then show ?case by simp
next
  case (Cons p ps)
  from Cons.prems(1) obtain s1 where s1: "maybeRenameNode rn s p a = Some s1"
    and rest: "forEach (\<lambda>p s. maybeRenameNode rn s p a) ps s1 = Some s'"
    by (rule forEach_Cons_Some)
  have ev1: "evolves a s s1" using maybeRenameNode_evolves[OF assms(1,2) s1] .
  have ev2: "evolves a s1 s'" using forEach_evolves[OF assms(1,2) rest] .
  show ?case
  proof (cases "q = p")
    case True
    have "ident_at s1 q = Some a"
      using maybeRenameNode_sets_alias[OF assms(1,2) s1] Cons.prems(3,4) True by simp
    then show ?thesis using ev2 by (rule evolves_keeps_alias[rotated])
  next
    case False
    with Cons.prems(2) have "q \<in> set ps" by simp
    moreover have "ident_at s1 q \<noteq> None"
      using Cons.prems(3) same_kinds_ident[OF evolves_same_kinds[OF ev1], of q] by simp
    moreover have "\<not> do_not_rename s1 q"
      using Cons.prems(4) same_kinds_do_not_rename[OF evolves_same_kinds[OF ev1], of q] by simp
    ultimately show ?thesis using Cons.IH[OF rest] by blast
  qed
qed

lemma forEach_grouped:
  assumes "rename_ok rn" "a \<noteq> []"
    and "forEach (\<lambda>p s. maybeRenameNode rn s p a) ps s = Some s'"
    and "L \<noteq> a" "evolves a t0 s" "grouped a L t0 s" "\<forall>p \<in> set ps. ident_at s p \<noteq> Some L"
  shows "grouped a L t0 s'"
  using assms(3,5-)
proof (induction ps arbitrary: s)
  case Nil
  then show ?case by simp
next
  case (Cons p ps)
  from Cons.prems(1) obtain s1 where s1: "maybeRenameNode rn s p a = Some s1"
    and rest: "forEach (\<lambda>p s. maybeRenameNode rn s p a) ps s1 = Some s'"
    by (rule forEach_Cons_Some)
  have ev1: "evolves a s s1" using maybeRenameNode_evolves[OF assms(1,2) s1] .
  have "ident_at s p \<noteq> Some L" using Cons.prems(4) by simp
  then have g1: "grouped a L t0 s1"
    using maybeRenameNode_grouped[OF assms(1,2) s1 assms(4) Cons.prems(2,3)] by blast
  have e1: "evolves a t0 s1" using evolves_trans[OF Cons.prems(2) ev1] .
  have "\<forall>p \<in> set ps. ident_at s1 p \<noteq> Some L"
    using Cons.prems(4) evolves_not_named[OF ev1 assms(4)] by simp
  then show ?case using Cons.IH[OF rest e1 g1] by blast
qed


definition chosen_alias :: "ast \<Rightarrow> string \<Rightarrow> string option \<Rightarrow> string" where
  "chosen_alias t X newName =
     (if or_empty newName \<noteq> [] then or_empty newName else findAvailibleAlias t X)"

lemma findAvailibleAlias_nonempty: "findAvailibleAlias t X \<noteq> []"
proof -
  have "last (candidates t X) \<in> set (candidates t X)" by (simp add: candidates_nonempty)
  then obtain k where "0 < k" "last (candidates t X) = replicate k (CHR ''_'') @ X"
    using candidates_are_variants by blast
  then show ?thesis by (cases k) (simp_all add: findAvailibleAlias_def loop_last_candidates)
qed

lemma chosen_alias_nonempty: "chosen_alias t X newName \<noteq> []"
  by (simp add: chosen_alias_def findAvailibleAlias_nonempty)

lemma chosen_alias_given: "a \<noteq> [] \<Longrightarrow> chosen_alias t X (Some a) = a"
  by (simp add: chosen_alias_def or_empty_def)

lemma renameIdentifiers_body_cases:
  assumes "renameIdentifiers_body rn t X newName = Some (t', r)"
  obtains (absent) "findIdentifiers t X = []" "t' = t" "r = None"
  | (present) "findIdentifiers t X \<noteq> []" "r = Some (chosen_alias t X newName)"
      "forEach (\<lambda>p s. maybeRenameNode rn s p (chosen_alias t X newName)) (findIdentifiers t X) t = Some t'"
proof (cases "findIdentifiers t X = []")
  case True
  then have "t' = t" "r = None"
    using assms by (simp_all add: renameIdentifiers_body_def)
  with True show ?thesis by (rule absent)
next
  case False
  then have "r = Some (chosen_alias t X newName)"
    and "forEach (\<lambda>p s. maybeRenameNode rn s p (chosen_alias t X newName)) (findIdentifiers t X) t = Some t'"
    using assms
    by (auto simp: renameIdentifiers_body_def chosen_alias_def Let_def split: option.splits)
  with False show ?thesis by (rule present)
qed

lemma lift_all_renamed:
  assumes "evolves a t0 t" "all_renamed a L t t'" "evolves a t t'"
  shows "all_renamed a L t0 t'"
  unfolding all_renamed_def
proof (intro allI impI)
  fix q
  assume q: "q \<noteq> [] \<and> ident_at t0 q = Some L \<and> \<not> do_not_rename t0 q"
  then have "ident_at t q = Some L \<or> ident_at t q = Some a"
    using assms(1) unfolding evolves_def by blast
  moreover have "\<not> do_not_rename t q"
    using q same_kinds_do_not_rename[OF evolves_same_kinds[OF assms(1)], of q] by simp
  ultimately show "ident_at t' q = Some a"
    using q assms(2,3) unfolding all_renamed_def by (blast dest: evolves_keeps_alias)
qed

lemma forEach_all_renamed:
  assumes "rename_ok rn" "a \<noteq> []"
    and "forEach (\<lambda>p s. maybeRenameNode rn s p a) (findIdentifiers t X) t = Some t'"
  shows "all_renamed a X t t'"
  unfolding all_renamed_def
proof (intro allI impI)
  fix q
  assume q: "q \<noteq> [] \<and> ident_at t q = Some X \<and> \<not> do_not_rename t q"
  then have "q \<in> set (findIdentifiers t X)" by (simp add: in_findIdentifiers_iff)
  then show "ident_at t' q = Some a"
    using forEach_sets_alias[OF assms] q by simp
qed

lemma rename_ok_body:
  assumes "rename_ok rn"
  shows "rename_ok (renameIdentifiers_body rn)"
  unfolding rename_ok_def
proof (intro allI impI)
  fix t X a t' r
  assume a: "a \<noteq> []" and res: "renameIdentifiers_body rn t X (Some a) = Some (t', r)"
  from res show "evolves a t t' \<and> all_renamed a X t t'
      \<and> (\<forall>t0 L. L \<noteq> a \<longrightarrow> evolves a t0 t \<longrightarrow> grouped a L t0 t \<longrightarrow> grouped a L t0 t')"
  proof (cases rule: renameIdentifiers_body_cases)
    case absent
    have "all_renamed a X t t"
      unfolding all_renamed_def using absent(1) in_findIdentifiers_iff[of _ t X] by auto
    with absent show ?thesis by (simp add: evolves_refl)
  next
    case present
    note fe = present(3)[unfolded chosen_alias_given[OF a]]
    have ev: "evolves a t t'" using forEach_evolves[OF assms a fe] .
    have ar: "all_renamed a X t t'" using forEach_all_renamed[OF assms a fe] .
    have "grouped a L t0 t'" if "L \<noteq> a" "evolves a t0 t" "grouped a L t0 t" for t0 L
    proof (cases "X = L")
      case True
      then show ?thesis
        using lift_all_renamed[OF that(2) _ ev] ar by (simp add: all_renamed_grouped)
    next
      case False
      then have "\<forall>p \<in> set (findIdentifiers t X). ident_at t p \<noteq> Some L"
        by (simp add: in_findIdentifiers_iff)
      then show ?thesis
        using forEach_grouped[OF assms a fe that] by blast
    qed
    with ev ar show ?thesis by blast
  qed
qed

lemma rename_ok_renameIdentifiers: "rename_ok (renameIdentifiers fuel)"
proof (induction fuel)
  case 0
  show ?case by (simp add: rename_ok_def)
next
  case (Suc fuel)
  then show ?case by (simp add: rename_ok_body)
qed

section \<open>Export specifiers\<close>

lemma parent_of_snoc: "parent_of t (q @ [s]) = get t q"
  by (simp add: parent_of_def)

lemma kind_ExportSpecifier:
  assumes "kind_at t q = Some KExportSpecifier"
  obtains l e where "get t q = Some (ExportSpecifier l e)"
proof -
  from assms obtain n where n: "get t q = Some n" "kind n = KExportSpecifier"
    by (auto simp: kind_at_def)
  then show ?thesis using that by (cases n) (simp_all add: kind_def)
qed

lemma export_parent_check:
  assumes "kind_at t q = Some KExportSpecifier"
  shows "ExportSpecifier_check (parent_of t (q @ [s]))"
    and "\<not> ImportSpecifier_check (parent_of t (q @ [s]))"
    and "\<not> Property_check (parent_of t (q @ [s]))"
    and "\<not> MemberExpression_check (parent_of t (q @ [s]))"
  using assms by (auto simp: check_kind parent_of_snoc kind_at_def)

lemma export_parent_not_exempt:
  assumes "kind_at t q = Some KExportSpecifier"
  shows "\<not> do_not_rename t (q @ [s])"
  unfolding do_not_rename_def Let_def
  using export_parent_check[OF assms, of s] by simp

lemma export_names:
  assumes "kind_at t q = Some KExportSpecifier"
  shows "exported_name (parent_of t (q @ [s])) = ident_at t (q @ [Exported])"
    and "local_name (parent_of t (q @ [s])) = ident_at t (q @ [Local])"
proof -
  from assms obtain l e where g: "get t q = Some (ExportSpecifier l e)"
    by (rule kind_ExportSpecifier)
  show "exported_name (parent_of t (q @ [s])) = ident_at t (q @ [Exported])"
    by (simp add: parent_of_snoc g exported_name_def ident_at_def get_append child_simps)
  show "local_name (parent_of t (q @ [s])) = ident_at t (q @ [Local])"
    by (cases l) (simp_all add: parent_of_snoc g local_name_def ident_at_def get_append child_simps)
qed

lemma export_step:
  assumes ok: "rename_ok rn" and a: "a \<noteq> []"
    and res: "maybeRenameNode rn s (q @ [Exported]) a = Some s1"
    and L: "L \<noteq> a" and ev: "evolves a t0 s" and gr: "grouped a L t0 s"
    and e: "ident_at s (q @ [Exported]) \<noteq> Some L"
    and k: "kind_at t0 q = Some KExportSpecifier"
    and l: "ident_at t0 (q @ [Local]) = Some L"
  shows "all_renamed a L t0 s1"
proof -
  let ?e = "q @ [Exported]" and ?l = "q @ [Local]"
  have ks: "kind_at s q = Some KExportSpecifier"
    using k evolves_same_kinds[OF ev] by (simp add: same_kinds_def)
  have ev1: "evolves a s s1" using maybeRenameNode_evolves[OF ok a res] .
  have l_free: "\<not> do_not_rename t0 ?l" using export_parent_not_exempt[OF k] .
  from l ev have "ident_at s ?l = Some L \<or> ident_at s ?l = Some a"
    unfolding evolves_def by blast
  then show ?thesis
  proof
    assume la: "ident_at s ?l = Some a"
    have "\<not> (\<forall>p. ident_at t0 p = Some L \<longrightarrow> ident_at s p = Some L)"
      using l la L by auto
    with gr have "all_renamed a L t0 s"
      unfolding grouped_def all_renamed_def by blast
    then show ?thesis using ev1 by (rule all_renamed_evolves)
  next
    assume lL: "ident_at s ?l = Some L"
    have re: "reenters s ?e"
      unfolding reenters_def
      using e lL export_parent_check(1)[OF ks, of Exported] by (simp add: export_names[OF ks])
    have ne: "\<not> do_not_rename s ?e" using export_parent_not_exempt[OF ks] .
    from res show ?thesis
    proof (cases rule: maybeRenameNode_cases)
      case exempt
      with ne show ?thesis by simp
    next
      case plain
      with re show ?thesis by simp
    next
      case (nested t3 r)
      let ?t2 = "shorthand_fixup s ?e"
      have "or_empty (local_name (parent_of s ?e)) = L"
        using lL by (simp add: export_names[OF ks] or_empty_def)
      with nested(3) have call: "rn ?t2 L (Some a) = Some (t3, r)" by simp
      have e2: "evolves a t0 ?t2" using evolves_trans[OF ev evolves_shorthand_fixup] .
      have "all_renamed a L t0 t3"
        using lift_all_renamed[OF e2 rename_okD(2)[OF ok a call] rename_okD(1)[OF ok a call]] .
      then show ?thesis
        using nested(4) all_renamed_evolves[OF _ evolves_set_name] by simp
    qed
  qed
qed

lemma forEach_export_local:
  assumes ok: "rename_ok rn" and a: "a \<noteq> []"
    and res: "forEach (\<lambda>p s. maybeRenameNode rn s p a) ps s = Some s'"
    and L: "L \<noteq> a" and ev: "evolves a t0 s" and gr: "grouped a L t0 s"
    and names: "\<forall>p \<in> set ps. ident_at s p \<noteq> Some L"
    and mem: "q @ [Exported] \<in> set ps"
    and k: "kind_at t0 q = Some KExportSpecifier"
    and l: "ident_at t0 (q @ [Local]) = Some L"
  shows "all_renamed a L t0 s'"
  using res ev gr names mem
proof (induction ps arbitrary: s)
  case Nil
  then show ?case by simp
next
  case (Cons p ps)
  from Cons.prems(1) obtain s1 where s1: "maybeRenameNode rn s p a = Some s1"
    and rest: "forEach (\<lambda>p s. maybeRenameNode rn s p a) ps s1 = Some s'"
    by (rule forEach_Cons_Some)
  have ev1: "evolves a s s1" using maybeRenameNode_evolves[OF ok a s1] .
  have ev2: "evolves a s1 s'" using forEach_evolves[OF ok a rest] .
  show ?case
  proof (cases "p = q @ [Exported]")
    case True
    have "ident_at s (q @ [Exported]) \<noteq> Some L" using Cons.prems(4) True by simp
    then have "all_renamed a L t0 s1"
      using export_step[OF ok a s1[unfolded True] L Cons.prems(2,3) _ k l] by blast
    then show ?thesis using ev2 by (rule all_renamed_evolves)
  next
    case False
    with Cons.prems(5) have m: "q @ [Exported] \<in> set ps" by simp
    have "ident_at s p \<noteq> Some L" using Cons.prems(4) by simp
    then have g1: "grouped a L t0 s1"
      using maybeRenameNode_grouped[OF ok a s1 L Cons.prems(2,3)] by blast
    have e1: "evolves a t0 s1" using evolves_trans[OF Cons.prems(2) ev1] .
    have n1: "\<forall>p \<in> set ps. ident_at s1 p \<noteq> Some L"
      using Cons.prems(4) evolves_not_named[OF ev1 L] by simp
    show ?thesis using Cons.IH[OF rest e1 g1 n1 m] .
  qed
qed

lemma ident_at_Some_iff: "ident_at t p = Some x \<longleftrightarrow> get t p = Some (Identifier x)"
  by (auto simp: ident_at_def name_of_def split: option.splits node.splits)

lemma renameIdentifiers_Some_fuel:
  assumes "renameIdentifiers fuel t X newName = Some res"
  obtains k where "fuel = Suc k" "renameIdentifiers_body (renameIdentifiers k) t X newName = Some res"
  using assms by (cases fuel) simp_all

lemma renameIdentifiers_given:
  "a \<noteq> [] \<Longrightarrow> renameIdentifiers (Suc fuel) t X (Some a) =
     (if findIdentifiers t X \<noteq> [] then
        (case forEach (\<lambda>nodePath s. maybeRenameNode (renameIdentifiers fuel) s nodePath a)
                (findIdentifiers t X) t of
           None \<Rightarrow> None | Some t' \<Rightarrow> Some (t', Some a))
      else Some (t, None))"
  by (simp add: renameIdentifiers_body_def or_empty_def Let_def)

text \<open>
  What a call of \<^verbatim>\<open>renameIdentifiers(tree, N, newName)\<close> that returns has done to an
  export specifier whose exported part is named \<open>N\<close> and whose local part is an
  identifier \<open>L\<close>: it returns an alias \<open>A\<close>, both parts of the specifier are named
  \<open>A\<close> in the resulting tree, and every identifier named \<open>L\<close> outside the do-not-rename
  positions of the decision table is named \<open>A\<close>. This holds for every alias.
\<close>

lemma export_specifier_renamed:
  assumes res: "renameIdentifiers fuel T N newName = Some (T', r)"
    and spec: "get T q = Some (ExportSpecifier (Some (Identifier L)) (Identifier N))"
  shows "\<exists>A. r = Some A
           \<and> get T' q = Some (ExportSpecifier (Some (Identifier A)) (Identifier A))
           \<and> (\<forall>p. p \<noteq> [] \<and> get T p = Some (Identifier L) \<and> \<not> do_not_rename T p
                  \<longrightarrow> get T' p = Some (Identifier A))"
proof -
  let ?e = "q @ [Exported]" and ?l = "q @ [Local]"
  let ?A = "chosen_alias T N newName"
  from res obtain k where
    body: "renameIdentifiers_body (renameIdentifiers k) T N newName = Some (T', r)"
    by (rule renameIdentifiers_Some_fuel)
  have ok: "rename_ok (renameIdentifiers k)" by (rule rename_ok_renameIdentifiers)
  have A: "?A \<noteq> []" by (rule chosen_alias_nonempty)
  have k: "kind_at T q = Some KExportSpecifier"
    using spec by (simp add: kind_at_def kind_def)
  have e: "ident_at T ?e = Some N" and l: "ident_at T ?l = Some L"
    using spec by (simp_all add: ident_at_def get_append child_simps name_of_def)
  have e_in: "?e \<in> set (findIdentifiers T N)"
    using e by (simp add: in_findIdentifiers_iff)
  from body show ?thesis
  proof (cases rule: renameIdentifiers_body_cases)
    case absent
    with e_in show ?thesis by simp
  next
    case present
    note fe = present(3)
    have ev: "evolves ?A T T'" using forEach_evolves[OF ok A fe] .
    have arN: "all_renamed ?A N T T'" using forEach_all_renamed[OF ok A fe] .
    have arL: "all_renamed ?A L T T'"
    proof (cases "L = N")
      case True
      with arN show ?thesis by simp
    next
      case LN: False
      show ?thesis
      proof (cases "L = ?A")
        case True
        then show ?thesis
          unfolding all_renamed_def using evolves_keeps_alias[OF ev] by blast
      next
        case False
        have "\<forall>p \<in> set (findIdentifiers T N). ident_at T p \<noteq> Some L"
          using LN by (auto simp: in_findIdentifiers_iff)
        moreover have "grouped ?A L T T" by (simp add: grouped_def)
        ultimately show ?thesis
          using forEach_export_local[OF ok A fe False evolves_refl _ _ e_in k l] by blast
      qed
    qed
    have e': "ident_at T' ?e = Some ?A"
      using arN e export_parent_not_exempt[OF k, of Exported] unfolding all_renamed_def by simp
    have l': "ident_at T' ?l = Some ?A"
      using arL l export_parent_not_exempt[OF k, of Local] unfolding all_renamed_def by simp
    have "kind_at T' q = Some KExportSpecifier"
      using k evolves_same_kinds[OF ev] by (simp add: same_kinds_def)
    then obtain l2 e2 where g: "get T' q = Some (ExportSpecifier l2 e2)"
      by (rule kind_ExportSpecifier)
    have "e2 = Identifier ?A"
      using e' g by (simp add: ident_at_Some_iff get_append child_simps)
    moreover have "l2 = Some (Identifier ?A)"
      using l' g by (simp add: ident_at_Some_iff get_append child_simps)
    ultimately have "get T' q = Some (ExportSpecifier (Some (Identifier ?A)) (Identifier ?A))"
      using g by simp
    moreover have "\<forall>p. p \<noteq> [] \<and> get T p = Some (Identifier L) \<and> \<not> do_not_rename T p
                  \<longrightarrow> get T' p = Some (Identifier ?A)"
      using arL unfolding all_renamed_def ident_at_Some_iff by blast
    ultimately show ?thesis using present(2) by blast
  qed
qed

section \<open>Queries and deletion on the template\<close>

text \<open>
  \<^verbatim>\<open>findExports\<close> and \<^verbatim>\<open>findDeclarations\<close> with their filters, and jscodeshift's
  \<^verbatim>\<open>remove()\<close> on the collection of paths that a query returned: every node of the
  collection is pruned from its parent. A node pruned from an array leaves the array, an
  optional field is left undefined (\<open>None\<close>), a mandatory field becomes \<open>Absent\<close>.
  \<open>prune_at M n\<close> prunes, below \<open>n\<close>, the nodes whose path from \<open>n\<close> is in the
  collection \<open>M\<close>.

  When it has pruned a node, ast-types looks at the parent: a variable declaration left
  without declarators and an expression statement left without expression are pruned in
  turn, and an if statement left without consequent is rewritten. The two queries return
  export specifiers and variable declarations only (\<open>template_kind\<close>), and this clean-up
  is not modelled: \<open>remove\<close> is the deletion on the trees in which no node of these two
  kinds is the child of a variable declaration, an expression statement or an if statement
  (\<open>plain_parent\<close>, \<open>deletes_plainly\<close>). The parsers give no such child to the first two,
  and the template has no declaration as the branch of an if statement; the properties of
  the deletion below are stated for such trees.
\<close>

definition exportFilter :: "string \<Rightarrow> node \<Rightarrow> bool" where
  "exportFilter name n = (case n of ExportSpecifier l e \<Rightarrow> name_of e = Some name | _ \<Rightarrow> False)"

definition findExports :: "ast \<Rightarrow> string \<Rightarrow> path list" where
  "findExports t name = ast_find (exportFilter name) t"

definition declarationFilter :: "string \<Rightarrow> node \<Rightarrow> bool" where
  "declarationFilter name n =
     (case n of
        VariableDeclaration declarations \<Rightarrow>
          length declarations = 1 \<and>
          (case declarations ! 0 of
             VariableDeclarator i init \<Rightarrow> name_of i = Some name
           | _ \<Rightarrow> False)
      | _ \<Rightarrow> False)"

definition findDeclarations :: "ast \<Rightarrow> string \<Rightarrow> path list" where
  "findDeclarations t name = ast_find (declarationFilter name) t"

function prune_at :: "(path \<Rightarrow> bool) \<Rightarrow> node \<Rightarrow> node" where
  "prune_at M (Identifier x) = Identifier x"
| "prune_at M (ImportSpecifier l i) =
     ImportSpecifier
       (case l of None \<Rightarrow> None
        | Some n \<Rightarrow> if M [Local] then None else Some (prune_at (\<lambda>p. M (Local # p)) n))
       (if M [Imported] then Absent else prune_at (\<lambda>p. M (Imported # p)) i)"
| "prune_at M (Property k v sh) =
     Property (if M [Key] then Absent else prune_at (\<lambda>p. M (Key # p)) k)
              (if M [Val] then Absent else prune_at (\<lambda>p. M (Val # p)) v) sh"
| "prune_at M (ObjectPattern ps) =
     ObjectPattern
       (concat (map (\<lambda>(s, c). if M [s] then [] else [prune_at (\<lambda>p. M (s # p)) c]) (elems ps)))"
| "prune_at M (ObjectExpression ps) =
     ObjectExpression
       (concat (map (\<lambda>(s, c). if M [s] then [] else [prune_at (\<lambda>p. M (s # p)) c]) (elems ps)))"
| "prune_at M (MemberExpression ob pr c) =
     MemberExpression (if M [Object] then Absent else prune_at (\<lambda>p. M (Object # p)) ob)
                      (if M [PropertyF] then Absent else prune_at (\<lambda>p. M (PropertyF # p)) pr) c"
| "prune_at M (ExportSpecifier l e) =
     ExportSpecifier
       (case l of None \<Rightarrow> None
        | Some n \<Rightarrow> if M [Local] then None else Some (prune_at (\<lambda>p. M (Local # p)) n))
       (if M [Exported] then Absent else prune_at (\<lambda>p. M (Exported # p)) e)"
| "prune_at M (VariableDeclarator i init) =
     VariableDeclarator
       (if M [Id] then Absent else prune_at (\<lambda>p. M (Id # p)) i)
       (case init of None \<Rightarrow> None
        | Some n \<Rightarrow> if M [Init] then None else Some (prune_at (\<lambda>p. M (Init # p)) n))"
| "prune_at M (VariableDeclaration ds) =
     VariableDeclaration
       (concat (map (\<lambda>(s, c). if M [s] then [] else [prune_at (\<lambda>p. M (s # p)) c]) (elems ds)))"
| "prune_at M (Other k cs) =
     Other k (concat (map (\<lambda>(s, c). if M [s] then [] else [prune_at (\<lambda>p. M (s # p)) c]) (elems cs)))"
| "prune_at M Absent = Absent"
  by pat_completeness auto
termination
  by (relation "measure (\<lambda>(M, n). size n)") (auto dest: size_elems)

definition remove :: "path list \<Rightarrow> ast \<Rightarrow> ast" where
  "remove paths t = prune_at (\<lambda>p. p \<in> set paths) t"

definition template_kind :: "node \<Rightarrow> bool" where
  "template_kind n = (case n of ExportSpecifier l e \<Rightarrow> True | VariableDeclaration ds \<Rightarrow> True | _ \<Rightarrow> False)"

definition plain_parent :: "node \<Rightarrow> bool" where
  "plain_parent n =
     (case n of
        VariableDeclaration ds \<Rightarrow> list_all (\<lambda>d. \<not> template_kind d) ds
      | Other k cs \<Rightarrow>
          (k = ''ExpressionStatement'' \<or> k = ''IfStatement'') \<longrightarrow> list_all (\<lambda>c. \<not> template_kind c) cs
      | _ \<Rightarrow> True)"

section \<open>The loader\<close>

text \<open>
  \<^verbatim>\<open>DATA_FETCHING_FUNCTIONS\<close> is a module-level object: one value for the life of the
  process, whose \<^verbatim>\<open>alias\<close> fields \<^verbatim>\<open>wrapFunctions\<close> assigns. Its value is therefore
  part of the state that a call of the loader receives and returns; the constant below is
  its initial value. The field \<^verbatim>\<open>alias\<close> is called \<open>aliasName\<close> here.
\<close>

record tracked =
  placeholder :: string
  aliasName :: string

type_synonym registry = "(string \<times> tracked) list"

definition DATA_FETCHING_FUNCTIONS :: registry where
  "DATA_FETCHING_FUNCTIONS =
     [(''getServerSideProps'', \<lparr>placeholder = ''__ORIG_GSSP__'', aliasName = ''''\<rparr>),
      (''getStaticProps'', \<lparr>placeholder = ''__ORIG_GSPROPS__'', aliasName = ''''\<rparr>),
      (''getStaticPaths'', \<lparr>placeholder = ''__ORIG_GSPATHS__'', aliasName = ''''\<rparr>)]"

definition set_alias :: "registry \<Rightarrow> string \<Rightarrow> string \<Rightarrow> registry" where
  "set_alias reg name a = map (\<lambda>(k, v). if k = name then (k, v\<lparr>aliasName := a\<rparr>) else (k, v)) reg"

text \<open>
  What the loader takes from outside this repository's source files: the module test
  \<^verbatim>\<open>isESM\<close>, the parsers behind \<^verbatim>\<open>makeAST\<close> (\<open>Inl\<close> is the error a parser throws),
  the printer \<^verbatim>\<open>toSource\<close> of recast, the text of the template file and the path of
  the page relative to the project directory. The state also records the diagnostics given
  to \<^verbatim>\<open>logger.warn\<close> and the calls of \<^verbatim>\<open>makeAST\<close>, in order.
\<close>

record env =
  isESM :: "string \<Rightarrow> bool"
  makeAST :: "string \<Rightarrow> bool \<Rightarrow> string + ast"
  toSource :: "ast \<Rightarrow> string"
  templateCode :: string
  filepath :: string

record loader_state =
  registry :: registry
  warnings :: "string list"
  parsed :: "(string \<times> bool) list"

text \<open>
  \<open>isTS_path\<close> is the test of the path against \<^verbatim>\<open>\.tsx?$\<close>, \<open>str_includes\<close> is
  \<^verbatim>\<open>String.prototype.includes\<close> and \<open>replace\<close> is \<^verbatim>\<open>String.prototype.replace\<close> with a
  string pattern: the first occurrence is replaced. The dollar patterns of the replacement
  string are not modelled; no alias the loader records contains a dollar sign.
\<close>

definition endsWith :: "string \<Rightarrow> string \<Rightarrow> bool" where
  "endsWith s suf = (length suf \<le> length s \<and> drop (length s - length suf) s = suf)"

definition isTS_path :: "string \<Rightarrow> bool" where
  "isTS_path path = (endsWith path ''.ts'' \<or> endsWith path ''.tsx'')"

primrec str_includes :: "string \<Rightarrow> string \<Rightarrow> bool" where
  "str_includes [] sub = (sub = [])"
| "str_includes (c # cs) sub = (take (length sub) (c # cs) = sub \<or> str_includes cs sub)"

primrec replace :: "string \<Rightarrow> string \<Rightarrow> string \<Rightarrow> string" where
  "replace [] pat rep = (if pat = [] then rep else [])"
| "replace (c # cs) pat rep =
     (if take (length pat) (c # cs) = pat then rep @ drop (length pat) (c # cs)
      else c # replace cs pat rep)"

definition warning_text :: "string \<Rightarrow> string \<Rightarrow> string" where
  "warning_text path err =
     ''Couldn't add Sentry to '' @ path @ '' because there was a parsing error: '' @ err"

text \<open>
  The body of the loop of \<^verbatim>\<open>wrapFunctions\<close> over the tracked names, on the user tree,
  the template tree and the registry. \<^verbatim>\<open>removeComments(templateAST)\<close> clears comment
  attachments, which the model of the tree does not carry.
\<close>

definition perName :: "string \<Rightarrow> ast \<times> ast \<times> registry \<Rightarrow> ast \<times> ast \<times> registry" where
  "perName functionName s =
     (case s of (userAST, templateAST, reg) \<Rightarrow>
        let matchingNodes = findIdentifiers userAST functionName
        in if matchingNodes \<noteq> [] then
             (let functionAlias = findAvailibleAlias userAST functionName
              in (fold (\<lambda>nodePath. modify (set_name functionAlias) nodePath) matchingNodes userAST,
                  templateAST,
                  set_alias reg functionName functionAlias))
           else
             (let templateAST1 = remove (findExports templateAST functionName) templateAST
              in (userAST,
                  remove (findDeclarations templateAST1 functionName) templateAST1,
                  reg)))"

definition wrapFunctions ::
  "env \<Rightarrow> loader_state \<Rightarrow> string \<Rightarrow> string \<Rightarrow> string \<Rightarrow> (string \<times> string) \<times> loader_state" where
  "wrapFunctions e st userCode templCode path =
     (let isTS = isTS_path path;
          st1 = st\<lparr>parsed := parsed st @ [(userCode, isTS)]\<rparr>
      in case makeAST e userCode isTS of
           Inl err \<Rightarrow>
             ((userCode, ''''), st1\<lparr>warnings := warnings st1 @ [warning_text path err]\<rparr>)
         | Inr userAST \<Rightarrow>
             (let st2 = st1\<lparr>parsed := parsed st1 @ [(templCode, False)]\<rparr>
              in case makeAST e templCode False of
                   Inl err \<Rightarrow>
                     ((userCode, ''''), st2\<lparr>warnings := warnings st2 @ [warning_text path err]\<rparr>)
                 | Inr templateAST \<Rightarrow>
                     (case fold perName (map fst (registry st2)) (userAST, templateAST, registry st2) of
                        (userAST', templateAST', reg') \<Rightarrow>
                          ((toSource e userAST', toSource e templateAST'), st2\<lparr>registry := reg'\<rparr>))))"

definition wrapDataFetchersLoader :: "env \<Rightarrow> loader_state \<Rightarrow> string \<Rightarrow> string \<times> loader_state" where
  "wrapDataFetchersLoader e st userCode =
     (if \<not> isESM e userCode then (userCode, st)
      else if list_all (\<lambda>functionName. \<not> str_includes userCode functionName) (map fst (registry st))
      then (userCode, st)
      else
        (case wrapFunctions e st userCode (templateCode e) (filepath e) of
           ((modifiedUserCode, modifiedTemplateCode), st') \<Rightarrow>
             (let injectedCode =
                    fold (\<lambda>tr code. replace code (placeholder tr) (aliasName tr))
                         (map snd (registry st')) modifiedTemplateCode
              in (modifiedUserCode @ [CHR 0x0A] @ injectedCode, st'))))"

section \<open>Evaluating the model on concrete trees\<close>

text \<open>
  Equations that let the simplifier run the queries and the renamer on a given tree.
  \<open>module body\<close> is the tree of a module with the statements \<open>body\<close>: a File node
  holding a Program node.
\<close>

primrec elems_from :: "nat \<Rightarrow> node list \<Rightarrow> (step \<times> node) list" where
  "elems_from i [] = []"
| "elems_from i (n # ns) = (Elem i, n) # elems_from (Suc i) ns"

lemma elems_from_zip: "elems_from i ns = zip (map Elem [i..<i + length ns]) ns"
proof (induction ns arbitrary: i)
  case Nil
  then show ?case by simp
next
  case (Cons n ns)
  have "[i..<i + length (n # ns)] = i # [Suc i..<Suc i + length ns]"
    by (simp add: upt_rec)
  then show ?case using Cons by simp
qed

lemma elems_eval: "elems ns = elems_from 0 ns"
  by (simp add: elems_def elems_from_zip)

definition below :: "(step \<times> node) list \<Rightarrow> (path \<times> node) list" where
  "below xs = concat (map (\<lambda>(s, c). ([s], c) # map (\<lambda>(p, d). (s # p, d)) (descendants c)) xs)"

lemma descendants_below: "descendants n = below (subnodes n)"
  by (subst descendants.simps) (simp add: below_def)

lemma below_eval:
  "below [] = []"
  "below ((s, c) # xs) = ([s], c) # map (\<lambda>(p, d). (s # p, d)) (below (subnodes c)) @ below xs"
  using descendants_below[of c] by (simp_all add: below_def)

lemmas tree_eval = descendants_below below_eval elems_eval opt_field_def
  findIdentifiers_def ast_find_def identifierFilter_def

lemmas rename_eval = renameIdentifiers_body_def maybeRenameNode_def Let_def
  findAvailibleAlias_def findAvailibleAlias_loop.simps or_empty_def
  parent_of_def grandparent_of_def ImportSpecifier_check_def Property_check_def
  ObjectPattern_check_def ObjectExpression_check_def MemberExpression_check_def
  ExportSpecifier_check_def exported_name_def local_name_def name_of_def
  set_name_def set_shorthand_false_def child_simps with_child_def set_elem_def set_opt_def


definition module :: "node list \<Rightarrow> ast" where
  "module body = Other ''File'' [Other ''Program'' body]"

section \<open>The order in which occurrences are processed\<close>

text \<open>
  \<^verbatim>\<open>find\<close> returns the paths in the order of the traversal: a node before the nodes
  below it, and the fields of a node in the order of \<open>subnodes\<close>. \<open>before\<close> is that
  order on paths, \<open>rank\<close> numbering the fields of a node. The list that
  \<open>findIdentifiers\<close> returns is sorted by it; in particular the local part of an export
  specifier is processed before its exported part.
\<close>

definition rank :: "step \<Rightarrow> nat" where
  "rank s = (case s of Local \<Rightarrow> 0 | Imported \<Rightarrow> 1 | Key \<Rightarrow> 0 | Val \<Rightarrow> 1 | Object \<Rightarrow> 0
             | PropertyF \<Rightarrow> 1 | Exported \<Rightarrow> 1 | Id \<Rightarrow> 0 | Init \<Rightarrow> 1 | Elem i \<Rightarrow> i)"

definition before :: "path \<Rightarrow> path \<Rightarrow> bool" where
  "before p q = ((p, q) \<in> lexord {(s, s'). rank s < rank s'})"

lemma before_Nil: "before [] q \<longleftrightarrow> q \<noteq> []"
  by (cases q) (simp_all add: before_def)

lemma not_before_Nil: "\<not> before p []"
  by (simp add: before_def)

lemma before_Cons:
  "before (s # p) (s' # q) \<longleftrightarrow> rank s < rank s' \<or> (s = s' \<and> before p q)"
  by (simp add: before_def)

lemma before_trans: "before p q \<Longrightarrow> before q r \<Longrightarrow> before p r"
  unfolding before_def by (rule lexord_trans) (auto simp: trans_def)

lemma before_irrefl: "\<not> before p p"
  unfolding before_def by (rule lexord_irreflexive) simp

lemma before_append: "before p q \<Longrightarrow> before (r @ p) (r @ q)"
  unfolding before_def by (rule lexord_append_leftI)

lemma local_before_exported: "before (q @ [Local]) (q @ [Exported])"
  by (rule before_append) (simp add: before_Cons rank_def)

lemma sorted_elems_from:
  "sorted_wrt (\<lambda>x y. rank (fst x) < rank (fst y)) (elems_from i ns)
   \<and> (\<forall>x \<in> set (elems_from i ns). i \<le> rank (fst x))"
proof (induction ns arbitrary: i)
  case Nil
  then show ?case by simp
next
  case (Cons n ns)
  from Cons[of "Suc i"] show ?case by (fastforce simp: rank_def)
qed

lemma rank_fields:
  "rank Local = 0" "rank Imported = 1" "rank Key = 0" "rank Val = 1" "rank Object = 0"
  "rank PropertyF = 1" "rank Exported = 1" "rank Id = 0" "rank Init = 1"
  by (simp_all add: rank_def)

lemma sorted_elems: "sorted_wrt (\<lambda>x y. rank (fst x) < rank (fst y)) (elems ns)"
  by (simp add: elems_eval sorted_elems_from)

lemma sorted_subnodes: "sorted_wrt (\<lambda>x y. rank (fst x) < rank (fst y)) (subnodes n)"
  by (cases n) (simp_all add: sorted_elems opt_field_def rank_fields split: option.splits)

lemma sorted_wrt_concat_map:
  assumes "sorted_wrt Q xs"
    and "\<And>x. x \<in> set xs \<Longrightarrow> sorted_wrt R (f x)"
    and "\<And>x y a b. Q x y \<Longrightarrow> a \<in> set (f x) \<Longrightarrow> b \<in> set (f y) \<Longrightarrow> R a b"
  shows "sorted_wrt R (concat (map f xs))"
  using assms(1,2)
proof (induction xs)
  case Nil
  then show ?case by simp
next
  case (Cons x xs)
  then show ?case by (auto simp: sorted_wrt_append intro: assms(3))
qed

lemma sorted_descendants: "sorted_wrt (\<lambda>x y. before (fst x) (fst y)) (descendants t)"
proof (induction t rule: descendants.induct)
  case (1 n)
  let ?block = "\<lambda>(s, c). ([s], c) # map (\<lambda>(p, d). (s # p, d)) (descendants c)"
  have "sorted_wrt (\<lambda>x y. before (fst x) (fst y)) (concat (map ?block (subnodes n)))"
  proof (rule sorted_wrt_concat_map[OF sorted_subnodes])
    fix x
    assume x: "x \<in> set (subnodes n)"
    obtain s c where sc: "x = (s, c)" by (cases x)
    have "sorted_wrt (\<lambda>x y. before (fst x) (fst y)) (descendants c)"
      using 1 x sc by simp
    then have "sorted_wrt (\<lambda>x y. before (fst x) (fst y)) (map (\<lambda>(p, d). (s # p, d)) (descendants c))"
      by (simp add: sorted_wrt_map case_prod_beta before_Cons)
    moreover have "\<forall>y \<in> set (descendants c). before [s] (s # fst y)"
      using not_Nil_in_descendants[of _ c] by (auto simp: before_Cons before_Nil)
    ultimately show "sorted_wrt (\<lambda>x y. before (fst x) (fst y)) (?block x)"
      by (auto simp: sc)
  next
    fix x y a b
    assume "rank (fst x) < rank (fst y)" "a \<in> set (?block x)" "b \<in> set (?block y)"
    then show "before (fst a) (fst b)"
      by (cases x; cases y) (auto simp: before_Cons)
  qed
  then show ?case by (subst descendants.simps)
qed

lemma sorted_findIdentifiers: "sorted_wrt before (findIdentifiers t X)"
  unfolding findIdentifiers_def ast_find_def
  by (simp add: sorted_wrt_map sorted_wrt_filter sorted_descendants)

lemma sorted_split:
  assumes "sorted_wrt before (xs @ p # ys)"
  shows "\<forall>y \<in> set ys. before p y" and "\<forall>x \<in> set xs. before x p"
  using assms by (auto simp: sorted_wrt_append)

lemma earlier_in_list:
  assumes "findIdentifiers t X = xs @ p # ys" "q \<in> set (findIdentifiers t X)" "before q p"
  shows "q \<in> set xs"
proof -
  have s: "sorted_wrt before (xs @ p # ys)" using sorted_findIdentifiers[of t X] assms(1) by simp
  from assms(2,1) have "q \<in> set xs \<or> q = p \<or> q \<in> set ys" by auto
  moreover have "q \<noteq> p" using assms(3) before_irrefl by auto
  moreover have "q \<notin> set ys"
  proof
    assume "q \<in> set ys"
    with sorted_split(1)[OF s] have "before p q" by blast
    with assms(3) have "before q q" by (rule before_trans)
    then show False by (simp add: before_irrefl)
  qed
  ultimately show ?thesis by blast
qed

section \<open>Nesting depth, and the positions that are never renamed\<close>

text \<open>
  A call that returns within some nesting depth returns the same result within every
  greater one (\<open>extends\<close>). \<open>exempt_kept t t'\<close>: the two trees have nodes of the same
  kinds at the same paths, and every identifier in a do-not-rename position of \<open>t\<close> has
  the same name in \<open>t'\<close>. Every call of the renamer that returns keeps them, the nested
  calls included.
\<close>

definition extends :: "renamer \<Rightarrow> renamer \<Rightarrow> bool" where
  "extends rn rn' = (\<forall>t X newName res. rn t X newName = Some res \<longrightarrow> rn' t X newName = Some res)"

lemma maybeRenameNode_mono:
  assumes "extends rn rn'" "maybeRenameNode rn t p a = Some t'"
  shows "maybeRenameNode rn' t p a = Some t'"
proof (cases "do_not_rename t p")
  case True
  then show ?thesis using assms(2) by (simp add: maybeRenameNode_exempt)
next
  case False
  show ?thesis
    using assms unfolding maybeRenameNode_rename[OF False] extends_def
    by (auto split: if_splits option.splits)
qed

lemma forEach_mono:
  assumes "\<And>x s s'. f x s = Some s' \<Longrightarrow> g x s = Some s'"
    and "forEach f xs s = Some s'"
  shows "forEach g xs s = Some s'"
  using assms(2)
proof (induction xs arbitrary: s)
  case Nil
  then show ?case by simp
next
  case (Cons x xs)
  from Cons.prems obtain s1 where "f x s = Some s1" "forEach f xs s1 = Some s'"
    by (rule forEach_Cons_Some)
  then show ?case using assms(1) Cons.IH by simp
qed

lemma renameIdentifiers_body_mono:
  assumes "extends rn rn'"
  shows "extends (renameIdentifiers_body rn) (renameIdentifiers_body rn')"
  unfolding extends_def
proof (intro allI impI)
  fix t X newName res
  assume res: "renameIdentifiers_body rn t X newName = Some res"
  obtain t' r where tr: "res = (t', r)" by (cases res)
  from res[unfolded tr] show "renameIdentifiers_body rn' t X newName = Some res"
  proof (cases rule: renameIdentifiers_body_cases)
    case absent
    then show ?thesis by (simp add: renameIdentifiers_body_def tr)
  next
    case present
    have "forEach (\<lambda>p s. maybeRenameNode rn' s p (chosen_alias t X newName)) (findIdentifiers t X) t = Some t'"
      using present(3) by (rule forEach_mono[rotated]) (rule maybeRenameNode_mono[OF assms])
    then show ?thesis
      using present(1,2) by (simp add: renameIdentifiers_body_def tr chosen_alias_def Let_def)
  qed
qed

lemma renameIdentifiers_mono: "fuel \<le> fuel' \<Longrightarrow> extends (renameIdentifiers fuel) (renameIdentifiers fuel')"
proof (induction fuel arbitrary: fuel')
  case 0
  then show ?case by (simp add: extends_def)
next
  case (Suc fuel)
  then obtain k where k: "fuel' = Suc k" "fuel \<le> k" by (cases fuel') auto
  then show ?case using Suc.IH[of k] by (simp add: renameIdentifiers_body_mono)
qed

lemma renameIdentifiers_more_fuel:
  assumes "renameIdentifiers fuel t X newName = Some res" "fuel \<le> fuel'"
  shows "renameIdentifiers fuel' t X newName = Some res"
  using renameIdentifiers_mono[OF assms(2)] assms(1) unfolding extends_def by blast

lemma maybeRenameNode_more_fuel:
  assumes "maybeRenameNode (renameIdentifiers fuel) t p a = Some t'" "fuel \<le> fuel'"
  shows "maybeRenameNode (renameIdentifiers fuel') t p a = Some t'"
  using maybeRenameNode_mono[OF renameIdentifiers_mono[OF assms(2)] assms(1)] .

definition exempt_kept :: "ast \<Rightarrow> ast \<Rightarrow> bool" where
  "exempt_kept t t' = (same_kinds t t' \<and> (\<forall>q. do_not_rename t q \<longrightarrow> ident_at t' q = ident_at t q))"

definition keeps_exempt :: "renamer \<Rightarrow> bool" where
  "keeps_exempt rn = (\<forall>t X newName t' r. rn t X newName = Some (t', r) \<longrightarrow> exempt_kept t t')"

lemma exempt_kept_refl: "exempt_kept t t"
  by (simp add: exempt_kept_def same_kinds_def)

lemma exempt_kept_trans: "exempt_kept t t' \<Longrightarrow> exempt_kept t' t'' \<Longrightarrow> exempt_kept t t''"
  unfolding exempt_kept_def
  using same_kinds_do_not_rename[of t t'] by (auto simp: same_kinds_def)

lemma exempt_kept_fixup: "exempt_kept t (shorthand_fixup t p)"
  by (simp add: exempt_kept_def same_kinds_shorthand_fixup ident_at_shorthand_fixup)

lemma exempt_kept_set_name:
  assumes "\<not> do_not_rename t p"
  shows "exempt_kept t (modify (set_name a) p t)"
  unfolding exempt_kept_def
  using assms evolves_same_kinds[OF evolves_set_name[of a t p]]
  by (auto simp: ident_at_set_name)

lemma maybeRenameNode_keeps_exempt:
  assumes "keeps_exempt rn" "maybeRenameNode rn t p a = Some t'"
  shows "exempt_kept t t'"
  using assms(2)
proof (cases rule: maybeRenameNode_cases)
  case exempt
  then show ?thesis by (simp add: exempt_kept_refl)
next
  case plain
  let ?t2 = "shorthand_fixup t p"
  have "\<not> do_not_rename ?t2 p"
    using plain(1) same_kinds_do_not_rename[OF same_kinds_shorthand_fixup, of t p p] by simp
  then show ?thesis
    using plain(3) exempt_kept_trans[OF exempt_kept_fixup exempt_kept_set_name] by simp
next
  case (nested t3 r)
  let ?t2 = "shorthand_fixup t p"
  have e3: "exempt_kept ?t2 t3"
    using assms(1) nested(3) unfolding keeps_exempt_def by blast
  have e: "exempt_kept t t3" using exempt_kept_trans[OF exempt_kept_fixup e3] .
  then have "same_kinds t t3" by (simp add: exempt_kept_def)
  then have "\<not> do_not_rename t3 p"
    using nested(1) same_kinds_do_not_rename[of t t3 p] by simp
  then show ?thesis
    using nested(4) exempt_kept_trans[OF e exempt_kept_set_name] by simp
qed

lemma forEach_keeps_exempt:
  assumes "keeps_exempt rn"
    and "forEach (\<lambda>p s. maybeRenameNode rn s p a) ps s = Some s'"
  shows "exempt_kept s s'"
  using assms(2)
proof (induction ps arbitrary: s)
  case Nil
  then show ?case by (simp add: exempt_kept_refl)
next
  case (Cons p ps)
  from Cons.prems obtain s1 where s1: "maybeRenameNode rn s p a = Some s1"
    and rest: "forEach (\<lambda>p s. maybeRenameNode rn s p a) ps s1 = Some s'"
    by (rule forEach_Cons_Some)
  show ?case
    using exempt_kept_trans[OF maybeRenameNode_keeps_exempt[OF assms(1) s1] Cons.IH[OF rest]] .
qed

lemma keeps_exempt_body:
  assumes "keeps_exempt rn"
  shows "keeps_exempt (renameIdentifiers_body rn)"
  unfolding keeps_exempt_def
proof (intro allI impI)
  fix t X newName t' r
  assume "renameIdentifiers_body rn t X newName = Some (t', r)"
  then show "exempt_kept t t'"
  proof (cases rule: renameIdentifiers_body_cases)
    case absent
    then show ?thesis by (simp add: exempt_kept_refl)
  next
    case present
    then show ?thesis using forEach_keeps_exempt[OF assms] by blast
  qed
qed

lemma keeps_exempt_renameIdentifiers: "keeps_exempt (renameIdentifiers fuel)"
proof (induction fuel)
  case 0
  show ?case by (simp add: keeps_exempt_def)
next
  case (Suc fuel)
  then show ?case by (simp add: keeps_exempt_body)
qed

lemma renameIdentifiers_keeps_exempt:
  assumes "renameIdentifiers fuel t X newName = Some (t', r)" "do_not_rename t q"
  shows "ident_at t' q = ident_at t q"
  using keeps_exempt_renameIdentifiers[of fuel] assms
  unfolding keeps_exempt_def exempt_kept_def by blast

section \<open>A rename whose alias is not in use returns\<close>

text \<open>
  The recursion through the export branch of \<^verbatim>\<open>maybeRenameNode\<close> ends when the alias
  is a name that the tree does not use yet, which is what \<^verbatim>\<open>findAvailibleAlias\<close>
  generates. \<open>rename_inv a t\<close> holds of every tree on which \<^verbatim>\<open>maybeRenameNode\<close> is
  called in such a run: the alias is not empty, no identifier has the empty name (the
  parsers produce none), and every export specifier whose exported part is already named
  with the alias has its local part named with the alias too, or has no identifier as
  local part (\<open>alias_closed\<close>). It holds when the alias does not occur in the tree
  (\<open>fresh_rename_inv\<close>), and \<open>returns a t X\<close> says that the call for \<open>X\<close> returns
  within some nesting depth and re-establishes it. From a call to a call nested in it,
  \<open>smaller\<close> decreases: the identifiers not yet named with the alias, and then the
  paths that come before the first occurrence that is renamed without a nested call.
\<close>

definition alias_closed :: "string \<Rightarrow> ast \<Rightarrow> bool" where
  "alias_closed a t =
     (\<forall>q. kind_at t q = Some KExportSpecifier \<and> ident_at t (q @ [Exported]) = Some a
          \<longrightarrow> ident_at t (q @ [Local]) = Some a \<or> ident_at t (q @ [Local]) = None)"

definition rename_inv :: "string \<Rightarrow> ast \<Rightarrow> bool" where
  "rename_inv a t = (a \<noteq> [] \<and> findIdentifiers t [] = [] \<and> alias_closed a t)"

definition returns :: "string \<Rightarrow> ast \<Rightarrow> string \<Rightarrow> bool" where
  "returns a t X =
     (\<exists>fuel t' r. renameIdentifiers fuel t X (Some a) = Some (t', r) \<and> rename_inv a t')"

lemma findIdentifiers_Nil_iff:
  "findIdentifiers t X = [] \<longleftrightarrow> (\<forall>q. q \<noteq> [] \<longrightarrow> ident_at t q \<noteq> Some X)"
proof -
  have "findIdentifiers t X = [] \<longleftrightarrow> (\<forall>q. q \<notin> set (findIdentifiers t X))"
    by (cases "findIdentifiers t X") auto
  then show ?thesis by (auto simp: in_findIdentifiers_iff)
qed

lemma fresh_rename_inv:
  assumes "a \<noteq> []" "findIdentifiers t [] = []" "findIdentifiers t a = []"
  shows "rename_inv a t"
  using assms unfolding rename_inv_def alias_closed_def findIdentifiers_Nil_iff by simp

lemma rename_inv_cong:
  assumes "same_kinds t s" "\<forall>q. ident_at s q = ident_at t q" "rename_inv a t"
  shows "rename_inv a s"
  using assms unfolding rename_inv_def alias_closed_def findIdentifiers_Nil_iff same_kinds_def
  by simp

lemma rename_inv_fixup: "rename_inv a s \<Longrightarrow> rename_inv a (shorthand_fixup s p)"
  by (rule rename_inv_cong[OF same_kinds_shorthand_fixup]) (simp_all add: ident_at_shorthand_fixup)

lemma reenters_iff:
  "reenters t p \<longleftrightarrow>
     p \<noteq> [] \<and> last p = Exported \<and> kind_at t (butlast p) = Some KExportSpecifier
     \<and> ident_at t p \<noteq> ident_at t (butlast p @ [Local])"
proof (cases "p = []")
  case True
  then show ?thesis by (simp add: reenters_def parent_of_def ExportSpecifier_check_def)
next
  case False
  then have p: "p = butlast p @ [last p]" by simp
  show ?thesis
  proof (cases "kind_at t (butlast p) = Some KExportSpecifier")
    case k: True
    have "reenters t (butlast p @ [last p]) \<longleftrightarrow>
            last p = Exported \<and> ident_at t (butlast p @ [Exported]) \<noteq> ident_at t (butlast p @ [Local])"
      unfolding reenters_def
      using export_parent_check(1)[OF k, of "last p"] export_names[OF k, of "last p"]
      by auto
    then show ?thesis using False k p by (metis)
  next
    case k: False
    then have "\<not> ExportSpecifier_check (parent_of t p)"
      using False by (simp add: check_kind parent_of_kind)
    then show ?thesis using k by (simp add: reenters_def)
  qed
qed

lemma fixup_at_export:
  assumes "p \<noteq> []" "kind_at t (butlast p) = Some KExportSpecifier"
  shows "shorthand_fixup t p = t"
  using assms by (simp add: shorthand_fixup_def check_kind parent_of_kind)

lemma rename_inv_set_name:
  assumes inv: "rename_inv a s"
    and loc: "\<And>q. p = q @ [Exported] \<Longrightarrow> kind_at s q = Some KExportSpecifier
                \<Longrightarrow> ident_at s (q @ [Local]) = Some a \<or> ident_at s (q @ [Local]) = None"
  shows "rename_inv a (modify (set_name a) p s)"
proof -
  let ?s1 = "modify (set_name a) p s"
  have a: "a \<noteq> []" using inv by (simp add: rename_inv_def)
  have names: "findIdentifiers ?s1 [] = []"
    using inv a unfolding rename_inv_def findIdentifiers_Nil_iff
    by (auto simp: ident_at_set_name)
  have "alias_closed a ?s1"
    unfolding alias_closed_def
  proof (intro allI impI)
    fix q
    assume h: "kind_at ?s1 q = Some KExportSpecifier \<and> ident_at ?s1 (q @ [Exported]) = Some a"
    from h have k: "kind_at s q = Some KExportSpecifier"
      by (simp add: kind_at_modify local_edit_set_name)
    from h have e1: "ident_at ?s1 (q @ [Exported]) = Some a" by blast
    have old: "ident_at s (q @ [Local]) = Some a \<or> ident_at s (q @ [Local]) = None"
    proof (cases "p = q @ [Exported]")
      case True
      then show ?thesis using k by (rule loc)
    next
      case False
      have "ident_at ?s1 (q @ [Exported]) = ident_at s (q @ [Exported])"
        using False by (subst ident_at_set_name) simp
      with e1 have e: "ident_at s (q @ [Exported]) = Some a" by simp
      from inv have "alias_closed a s" by (simp add: rename_inv_def)
      then show ?thesis using k e by (simp add: alias_closed_def)
    qed
    have new: "ident_at ?s1 (q @ [Local])
                 = (if q @ [Local] = p \<and> ident_at s p \<noteq> None then Some a else ident_at s (q @ [Local]))"
      by (rule ident_at_set_name)
    show "ident_at ?s1 (q @ [Local]) = Some a \<or> ident_at ?s1 (q @ [Local]) = None"
      unfolding new using old by (cases "q @ [Local] = p \<and> ident_at s p \<noteq> None") simp_all
  qed
  with a names show ?thesis by (simp add: rename_inv_def)
qed

lemma evolves_back:
  assumes "evolves a t s" "ident_at s q = Some x" "x \<noteq> a"
  shows "ident_at t q = Some x"
proof -
  have "ident_at t q \<noteq> None"
    using assms(2) same_kinds_ident[OF evolves_same_kinds[OF assms(1)], of q] by auto
  then obtain y where y: "ident_at t q = Some y" by auto
  with assms(1) have "ident_at s q = Some y \<or> ident_at s q = Some a"
    unfolding evolves_def by blast
  with assms(2,3) y show ?thesis by auto
qed

definition not_alias :: "string \<Rightarrow> ast \<Rightarrow> path set" where
  "not_alias a t = {q. \<exists>x. ident_at t q = Some x \<and> x \<noteq> a}"

definition plain_occ :: "ast \<Rightarrow> string \<Rightarrow> path \<Rightarrow> bool" where
  "plain_occ t X p = (p \<noteq> [] \<and> ident_at t p = Some X \<and> \<not> do_not_rename t p \<and> \<not> reenters t p)"

definition ahead :: "ast \<Rightarrow> string \<Rightarrow> path set" where
  "ahead t X = {r. get t r \<noteq> None \<and> (\<forall>p. plain_occ t X p \<longrightarrow> before r p)}"

definition smaller :: "string \<Rightarrow> ((ast \<times> string) \<times> (ast \<times> string)) set" where
  "smaller a = (\<lambda>(t, X). card (not_alias a t)) <*mlex*> measure (\<lambda>(t, X). card (ahead t X))"

lemma wf_smaller: "wf (smaller a)"
  unfolding smaller_def by (rule wf_mlex) simp

lemma finite_paths: "finite {r. get t r \<noteq> None}"
proof -
  have "{r. get t r \<noteq> None} \<subseteq> insert [] (fst ` set (descendants t))"
  proof
    fix r
    assume "r \<in> {r. get t r \<noteq> None}"
    then obtain d where d: "get t r = Some d" by auto
    show "r \<in> insert [] (fst ` set (descendants t))"
    proof (cases "r = []")
      case True
      then show ?thesis by simp
    next
      case False
      with d have "(r, d) \<in> set (descendants t)" by (simp add: in_descendants_iff)
      then show ?thesis by force
    qed
  qed
  then show ?thesis by (rule finite_subset) simp
qed

lemma finite_not_alias: "finite (not_alias a t)"
  by (rule finite_subset[OF _ finite_paths[of t]])
     (auto simp: not_alias_def ident_at_def split: option.splits)

lemma finite_ahead: "finite (ahead t X)"
  by (rule finite_subset[OF _ finite_paths[of t]]) (auto simp: ahead_def)

lemma not_alias_subset: "evolves a t s \<Longrightarrow> not_alias a s \<subseteq> not_alias a t"
  unfolding not_alias_def using evolves_back by blast

lemma not_alias_same_names:
  assumes ev: "evolves a t s" and eq: "not_alias a s = not_alias a t"
  shows "ident_at s q = ident_at t q"
proof (cases "ident_at t q")
  case None
  then show ?thesis using same_kinds_ident[OF evolves_same_kinds[OF ev], of q] by simp
next
  case (Some y)
  then have alt: "ident_at s q = Some y \<or> ident_at s q = Some a"
    using ev unfolding evolves_def by blast
  show ?thesis
  proof (cases "y = a")
    case True
    with alt Some show ?thesis by auto
  next
    case False
    with Some have "q \<in> not_alias a t" by (simp add: not_alias_def)
    with eq have "q \<in> not_alias a s" by simp
    then obtain x where "ident_at s q = Some x" "x \<noteq> a" by (auto simp: not_alias_def)
    with alt Some show ?thesis by auto
  qed
qed

lemma same_paths: "same_kinds t s \<Longrightarrow> (get s r \<noteq> None) = (get t r \<noteq> None)"
  unfolding same_kinds_def kind_at_def by (metis option.map_disc_iff)

lemma plain_occ_cong:
  assumes "same_kinds t s" "\<forall>q. ident_at s q = ident_at t q"
  shows "plain_occ s X p = plain_occ t X p"
  using assms same_kinds_do_not_rename[OF assms(1), of p]
  unfolding plain_occ_def reenters_iff same_kinds_def by simp

lemma local_plain_occ:
  assumes "kind_at s q = Some KExportSpecifier" "ident_at s (q @ [Local]) = Some L"
  shows "plain_occ s L (q @ [Local])"
  using assms export_parent_not_exempt[OF assms(1), of Local]
  by (simp add: plain_occ_def reenters_iff)

lemma nested_smaller:
  assumes ev: "evolves a t s"
    and list: "findIdentifiers t X = xs @ p # ys"
    and LI: "\<forall>q \<in> set xs. \<not> do_not_rename t q \<longrightarrow> ident_at s q = Some a"
    and Xa: "X \<noteq> a"
    and re: "reenters s p"
    and l: "ident_at s (butlast p @ [Local]) = Some L"
  shows "((s, L), (t, X)) \<in> smaller a"
proof (cases "not_alias a s = not_alias a t")
  case False
  with not_alias_subset[OF ev] have "not_alias a s \<subset> not_alias a t" by blast
  then have "card (not_alias a s) < card (not_alias a t)"
    by (rule psubset_card_mono[OF finite_not_alias])
  then show ?thesis unfolding smaller_def by (intro mlex_less) simp
next
  case True
  have sk: "same_kinds t s" using ev by (rule evolves_same_kinds)
  have names: "\<forall>q. ident_at s q = ident_at t q"
    using not_alias_same_names[OF ev True] by blast
  let ?q = "butlast p" and ?l = "butlast p @ [Local]"
  from re have p: "p = ?q @ [Exported]" and k: "kind_at s ?q = Some KExportSpecifier"
    unfolding reenters_iff by (metis append_butlast_last_id, blast)
  have lp: "plain_occ s L ?l" using local_plain_occ[OF k l] .
  have lbp: "before ?l p" using local_before_exported[of ?q] p by simp
  have pb: "before p p0" if "plain_occ t X p0" for p0
  proof -
    from that have p0: "p0 \<noteq> []" "ident_at t p0 = Some X" "\<not> do_not_rename t p0" "\<not> reenters t p0"
      by (simp_all add: plain_occ_def)
    then have mem: "p0 \<in> set (findIdentifiers t X)" by (simp add: in_findIdentifiers_iff)
    have "p0 \<notin> set xs"
    proof
      assume "p0 \<in> set xs"
      with LI p0(3) have "ident_at s p0 = Some a" by blast
      with names p0(2) Xa show False by simp
    qed
    moreover have "p0 \<noteq> p"
    proof
      assume "p0 = p"
      with that have "plain_occ s X p" using plain_occ_cong[OF sk names] by simp
      with re show False by (simp add: plain_occ_def)
    qed
    ultimately have "p0 \<in> set ys" using mem list by auto
    moreover have "sorted_wrt before (xs @ p # ys)"
      using sorted_findIdentifiers[of t X] list by simp
    ultimately show ?thesis using sorted_split(1) by blast
  qed
  have sub: "ahead s L \<subseteq> ahead t X"
  proof
    fix r
    assume "r \<in> ahead s L"
    then have r: "get s r \<noteq> None" "before r ?l" using lp by (auto simp: ahead_def)
    have "before r p0" if "plain_occ t X p0" for p0
      using before_trans[OF before_trans[OF r(2) lbp] pb[OF that]] .
    then show "r \<in> ahead t X" using r(1) same_paths[OF sk, of r] by (simp add: ahead_def)
  qed
  have "?l \<in> ahead t X"
  proof -
    have "get s ?l \<noteq> None" using l by (auto simp: ident_at_def split: option.splits)
    then have "get t ?l \<noteq> None" using same_paths[OF sk, of ?l] by simp
    moreover have "before ?l p0" if "plain_occ t X p0" for p0
      using before_trans[OF lbp pb[OF that]] .
    ultimately show ?thesis by (simp add: ahead_def)
  qed
  moreover have "?l \<notin> ahead s L" using lp before_irrefl by (auto simp: ahead_def)
  ultimately have "ahead s L \<subset> ahead t X" using sub by blast
  then have "card (ahead s L) < card (ahead t X)"
    by (rule psubset_card_mono[OF finite_ahead])
  then show ?thesis
    unfolding smaller_def using True by (intro mlex_leq) simp_all
qed

lemma rename_empty_name:
  assumes "rename_inv a s"
  shows "renameIdentifiers (Suc fuel) s [] (Some a) = Some (s, None)"
  using assms by (simp add: rename_inv_def renameIdentifiers_given del: renameIdentifiers.simps)

lemma alias_step:
  assumes inv: "rename_inv a s" and p: "ident_at s p = Some a"
  shows "\<exists>s1. maybeRenameNode (renameIdentifiers (Suc 0)) s p a = Some s1
              \<and> same_kinds s s1 \<and> (\<forall>q. ident_at s1 q = ident_at s q)"
proof (cases "do_not_rename s p")
  case True
  then show ?thesis by (simp add: maybeRenameNode_exempt same_kinds_def)
next
  case False
  let ?s1 = "modify (set_name a) p (shorthand_fixup s p)"
  have sk: "same_kinds s ?s1"
    using evolves_same_kinds[OF evolves_trans[OF evolves_shorthand_fixup evolves_set_name]] .
  have nm: "\<forall>q. ident_at ?s1 q = ident_at s q"
    using p by (simp add: ident_at_set_name ident_at_shorthand_fixup)
  show ?thesis
  proof (cases "reenters s p")
    case nr: False
    then show ?thesis using sk nm by (simp add: maybeRenameNode_rename[OF False])
  next
    case re: True
    let ?q = "butlast p"
    from re have pne: "p \<noteq> []" and pe: "p = ?q @ [Exported]"
      and k: "kind_at s ?q = Some KExportSpecifier"
      and ne: "ident_at s p \<noteq> ident_at s (?q @ [Local])"
      unfolding reenters_iff by (blast, metis append_butlast_last_id, blast, blast)
    have "ident_at s (?q @ [Exported]) = Some a" using p pe by simp
    with inv k have "ident_at s (?q @ [Local]) = Some a \<or> ident_at s (?q @ [Local]) = None"
      unfolding rename_inv_def alias_closed_def by simp
    with ne p have "ident_at s (?q @ [Local]) = None" by auto
    then have "local_name (parent_of s p) = None"
      using export_names(2)[OF k, of Exported] pe by simp
    then have L: "or_empty (local_name (parent_of s p)) = []" by (simp add: or_empty_def)
    have fx: "shorthand_fixup s p = s" using fixup_at_export[OF pne k] .
    have "maybeRenameNode (renameIdentifiers (Suc 0)) s p a = Some ?s1"
      unfolding maybeRenameNode_rename[OF False] L fx
      using re rename_empty_name[OF inv, of 0] by simp
    then show ?thesis using sk nm by blast
  qed
qed

lemma alias_loop:
  assumes inv: "rename_inv a t"
  shows "same_kinds t s \<Longrightarrow> \<forall>q. ident_at s q = ident_at t q
         \<Longrightarrow> \<forall>p \<in> set ps. ident_at t p = Some a
         \<Longrightarrow> \<exists>s'. forEach (\<lambda>p s. maybeRenameNode (renameIdentifiers (Suc 0)) s p a) ps s = Some s'
                  \<and> same_kinds t s' \<and> (\<forall>q. ident_at s' q = ident_at t q)"
proof (induction ps arbitrary: s)
  case Nil
  then show ?case by simp
next
  case (Cons p ps)
  have invs: "rename_inv a s" using rename_inv_cong[OF Cons.prems(1,2) inv] .
  have "ident_at s p = Some a" using Cons.prems(2,3) by simp
  from alias_step[OF invs this] obtain s1 where
    s1: "maybeRenameNode (renameIdentifiers (Suc 0)) s p a = Some s1"
    and sk1: "same_kinds s s1" and nm1: "\<forall>q. ident_at s1 q = ident_at s q" by blast
  have "same_kinds t s1" using Cons.prems(1) sk1 by (simp add: same_kinds_def)
  moreover have "\<forall>q. ident_at s1 q = ident_at t q" using nm1 Cons.prems(2) by simp
  moreover have "\<forall>p \<in> set ps. ident_at t p = Some a" using Cons.prems(3) by simp
  ultimately obtain s' where
    "forEach (\<lambda>p s. maybeRenameNode (renameIdentifiers (Suc 0)) s p a) ps s1 = Some s'"
    "same_kinds t s'" "\<forall>q. ident_at s' q = ident_at t q"
    using Cons.IH by blast
  then show ?case using s1 by simp
qed

lemma returns_alias:
  assumes inv: "rename_inv a t"
  shows "returns a t a"
proof -
  have a: "a \<noteq> []" using inv by (simp add: rename_inv_def)
  have "\<forall>p \<in> set (findIdentifiers t a). ident_at t p = Some a"
    by (simp add: in_findIdentifiers_iff)
  then obtain s' where
    fe: "forEach (\<lambda>p s. maybeRenameNode (renameIdentifiers (Suc 0)) s p a) (findIdentifiers t a) t = Some s'"
    and sk: "same_kinds t s'" and nm: "\<forall>q. ident_at s' q = ident_at t q"
    using alias_loop[OF inv, of t "findIdentifiers t a"] by (auto simp: same_kinds_def)
  have inv': "rename_inv a s'" using rename_inv_cong[OF sk nm inv] .
  show ?thesis
  proof (cases "findIdentifiers t a = []")
    case True
    then have "renameIdentifiers (Suc (Suc 0)) t a (Some a) = Some (t, None)"
      using a by (simp add: renameIdentifiers_given del: renameIdentifiers.simps)
    then show ?thesis using inv unfolding returns_def by blast
  next
    case False
    then have "renameIdentifiers (Suc (Suc 0)) t a (Some a) = Some (s', Some a)"
      using a fe by (simp add: renameIdentifiers_given del: renameIdentifiers.simps)
    then show ?thesis using inv' unfolding returns_def by blast
  qed
qed

lemma step_returns:
  assumes inv: "rename_inv a s" and ev: "evolves a t s"
    and list: "findIdentifiers t X = xs @ p # ys"
    and LI: "\<forall>q \<in> set xs. \<not> do_not_rename t q \<longrightarrow> ident_at s q = Some a"
    and Xa: "X \<noteq> a"
    and IH: "\<And>s' L. ((s', L), (t, X)) \<in> smaller a \<Longrightarrow> rename_inv a s' \<Longrightarrow> returns a s' L"
  shows "\<exists>fuel s1. maybeRenameNode (renameIdentifiers fuel) s p a = Some s1 \<and> rename_inv a s1"
proof -
  have a: "a \<noteq> []" using inv by (simp add: rename_inv_def)
  have pin: "p \<in> set (findIdentifiers t X)" using list by simp
  then have p: "p \<noteq> []" "ident_at t p = Some X" by (simp_all add: in_findIdentifiers_iff)
  have sk: "same_kinds t s" using ev by (rule evolves_same_kinds)
  have ps: "ident_at s p = Some X \<or> ident_at s p = Some a"
    using ev p(2) unfolding evolves_def by blast
  show ?thesis
  proof (cases "do_not_rename s p")
    case True
    then have "maybeRenameNode (renameIdentifiers 0) s p a = Some s"
      by (rule maybeRenameNode_exempt)
    with inv show ?thesis by blast
  next
    case False
    note eq = maybeRenameNode_rename[OF False]
    show ?thesis
    proof (cases "reenters s p")
      case nr: False
      let ?s2 = "shorthand_fixup s p"
      let ?s1 = "modify (set_name a) p ?s2"
      have "rename_inv a ?s1"
      proof (rule rename_inv_set_name[OF rename_inv_fixup[OF inv]])
        fix q
        assume pe: "p = q @ [Exported]" and k2: "kind_at ?s2 q = Some KExportSpecifier"
        have k: "kind_at s q = Some KExportSpecifier"
          using k2 same_kinds_shorthand_fixup[of s p] by (simp add: same_kinds_def)
        have same: "ident_at s p = ident_at s (q @ [Local])"
          using nr pe k p(1) unfolding reenters_iff by simp
        have "ident_at s (q @ [Local]) = Some a"
        proof (rule ccontr)
          assume "ident_at s (q @ [Local]) \<noteq> Some a"
          with ps same have lX: "ident_at s (q @ [Local]) = Some X" by auto
          then have "ident_at t (q @ [Local]) = Some X" using evolves_back[OF ev _ Xa] by blast
          then have mem: "q @ [Local] \<in> set (findIdentifiers t X)"
            by (simp add: in_findIdentifiers_iff)
          have "before (q @ [Local]) p" using local_before_exported[of q] pe by simp
          then have "q @ [Local] \<in> set xs" using earlier_in_list[OF list mem] by blast
          moreover have "kind_at t q = Some KExportSpecifier"
            using k sk by (simp add: same_kinds_def)
          then have "\<not> do_not_rename t (q @ [Local])" by (rule export_parent_not_exempt)
          ultimately have "ident_at s (q @ [Local]) = Some a" using LI by blast
          with lX Xa show False by simp
        qed
        then show "ident_at ?s2 (q @ [Local]) = Some a \<or> ident_at ?s2 (q @ [Local]) = None"
          by (simp add: ident_at_shorthand_fixup)
      qed
      moreover have "maybeRenameNode (renameIdentifiers 0) s p a = Some ?s1"
        using nr by (simp add: eq)
      ultimately show ?thesis by blast
    next
      case re: True
      let ?q = "butlast p" and ?l = "butlast p @ [Local]"
      from re have pe: "p = ?q @ [Exported]"
        and k: "kind_at s ?q = Some KExportSpecifier"
        and ne: "ident_at s p \<noteq> ident_at s ?l"
        unfolding reenters_iff by (metis append_butlast_last_id, blast, blast)
      have fx: "shorthand_fixup s p = s" using fixup_at_export[OF p(1) k] .
      have ln: "local_name (parent_of s p) = ident_at s ?l"
        using export_names(2)[OF k, of Exported] pe by simp
      let ?L = "or_empty (ident_at s ?l)"
      have ret: "returns a s ?L"
      proof (cases "ident_at s ?l")
        case None
        then have "renameIdentifiers (Suc 0) s ?L (Some a) = Some (s, None)"
          using rename_empty_name[OF inv, of 0] by (simp add: or_empty_def)
        then show ?thesis using inv unfolding returns_def by blast
      next
        case (Some L)
        then have L: "?L = L" by (simp add: or_empty_def)
        have "L \<noteq> []"
          using inv Some p(1) unfolding rename_inv_def findIdentifiers_Nil_iff by auto
        have pX: "ident_at s p = Some X"
        proof (rule ccontr)
          assume "ident_at s p \<noteq> Some X"
          with ps have "ident_at s p = Some a" by simp
          then have "ident_at s (?q @ [Exported]) = Some a" using pe by simp
          with inv k have "ident_at s ?l = Some a \<or> ident_at s ?l = None"
            unfolding rename_inv_def alias_closed_def by simp
          with Some ne \<open>ident_at s p = Some a\<close> show False by auto
        qed
        show ?thesis
        proof (cases "L = a")
          case True
          then show ?thesis using returns_alias[OF inv] L by simp
        next
          case False
          have "((s, L), (t, X)) \<in> smaller a"
            using nested_smaller[OF ev list LI Xa re Some] .
          then show ?thesis using IH[OF _ inv] L by simp
        qed
      qed
      then obtain fuel t3 r where
        call: "renameIdentifiers fuel s ?L (Some a) = Some (t3, r)" and inv3: "rename_inv a t3"
        unfolding returns_def by blast
      have ok: "rename_ok (renameIdentifiers fuel)" by (rule rename_ok_renameIdentifiers)
      have ev3: "evolves a s t3" using rename_okD(1)[OF ok a call] .
      have ar3: "all_renamed a ?L s t3" using rename_okD(2)[OF ok a call] .
      have k3: "kind_at t3 ?q = Some KExportSpecifier"
        using k evolves_same_kinds[OF ev3] by (simp add: same_kinds_def)
      let ?s1 = "modify (set_name a) p t3"
      have "rename_inv a ?s1"
      proof (rule rename_inv_set_name[OF inv3])
        fix q
        assume "p = q @ [Exported]"
        then have q: "q = ?q" by simp
        show "ident_at t3 (q @ [Local]) = Some a \<or> ident_at t3 (q @ [Local]) = None"
        proof (cases "ident_at s ?l")
          case None
          then show ?thesis
            using same_kinds_ident[OF evolves_same_kinds[OF ev3], of ?l] q by simp
        next
          case (Some L)
          moreover have "\<not> do_not_rename s ?l" using export_parent_not_exempt[OF k] .
          ultimately have "ident_at t3 ?l = Some a"
            using ar3 unfolding all_renamed_def by (simp add: or_empty_def)
          then show ?thesis using q by simp
        qed
      qed
      moreover have "maybeRenameNode (renameIdentifiers fuel) s p a = Some ?s1"
        unfolding eq fx ln using re call by simp
      ultimately show ?thesis by blast
    qed
  qed
qed

lemma loop_returns:
  assumes Xa: "X \<noteq> a"
    and IH: "\<And>s' L. ((s', L), (t, X)) \<in> smaller a \<Longrightarrow> rename_inv a s' \<Longrightarrow> returns a s' L"
  shows "findIdentifiers t X = xs @ ys \<Longrightarrow> rename_inv a s \<Longrightarrow> evolves a t s
         \<Longrightarrow> \<forall>q \<in> set xs. \<not> do_not_rename t q \<longrightarrow> ident_at s q = Some a
         \<Longrightarrow> \<exists>fuel s'. forEach (\<lambda>p s. maybeRenameNode (renameIdentifiers fuel) s p a) ys s = Some s'
                       \<and> rename_inv a s'"
proof (induction ys arbitrary: xs s)
  case Nil
  then show ?case by simp
next
  case (Cons p ys)
  have a: "a \<noteq> []" using Cons.prems(2) by (simp add: rename_inv_def)
  from step_returns[OF Cons.prems(2,3,1,4) Xa IH] obtain f1 s1 where
    s1: "maybeRenameNode (renameIdentifiers f1) s p a = Some s1" and inv1: "rename_inv a s1"
    by blast
  have ok: "rename_ok (renameIdentifiers f1)" by (rule rename_ok_renameIdentifiers)
  have ev1: "evolves a s s1" using maybeRenameNode_evolves[OF ok a s1] .
  have evt: "evolves a t s1" using evolves_trans[OF Cons.prems(3) ev1] .
  have sk: "same_kinds t s" using Cons.prems(3) by (rule evolves_same_kinds)
  have pin: "p \<in> set (findIdentifiers t X)" using Cons.prems(1) by simp
  have LI1: "\<forall>q \<in> set (xs @ [p]). \<not> do_not_rename t q \<longrightarrow> ident_at s1 q = Some a"
  proof (intro ballI impI)
    fix q
    assume q: "q \<in> set (xs @ [p])" and ne: "\<not> do_not_rename t q"
    show "ident_at s1 q = Some a"
    proof (cases "q = p")
      case True
      have "ident_at t p \<noteq> None" using pin by (simp add: in_findIdentifiers_iff)
      then have "ident_at s p \<noteq> None" using same_kinds_ident[OF sk, of p] by simp
      moreover have "\<not> do_not_rename s p"
        using ne True same_kinds_do_not_rename[OF sk, of p] by simp
      ultimately show ?thesis
        using maybeRenameNode_sets_alias[OF ok a s1] True by simp
    next
      case False
      with q have "q \<in> set xs" by simp
      with Cons.prems(4) ne have "ident_at s q = Some a" by blast
      then show ?thesis using ev1 by (rule evolves_keeps_alias[rotated])
    qed
  qed
  have "findIdentifiers t X = (xs @ [p]) @ ys" using Cons.prems(1) by simp
  from Cons.IH[OF this inv1 evt LI1] obtain f2 s' where
    rest: "forEach (\<lambda>p s. maybeRenameNode (renameIdentifiers f2) s p a) ys s1 = Some s'"
    and inv': "rename_inv a s'" by blast
  let ?f = "max f1 f2"
  have "maybeRenameNode (renameIdentifiers ?f) s p a = Some s1"
    using maybeRenameNode_more_fuel[OF s1, of ?f] by simp
  moreover have "forEach (\<lambda>p s. maybeRenameNode (renameIdentifiers ?f) s p a) ys s1 = Some s'"
    using rest by (rule forEach_mono[rotated]) (rule maybeRenameNode_more_fuel, assumption, simp)
  ultimately have "forEach (\<lambda>p s. maybeRenameNode (renameIdentifiers ?f) s p a) (p # ys) s = Some s'"
    by simp
  with inv' show ?case by blast
qed

lemma renameIdentifiers_returns:
  assumes "rename_inv a t"
  shows "returns a t X"
proof -
  have "\<forall>t X. tx = (t, X) \<longrightarrow> rename_inv a t \<longrightarrow> returns a t X" for tx
  proof (induction tx rule: wf_induct_rule[OF wf_smaller[of a]])
    case (1 tx)
    show ?case
    proof (intro allI impI)
      fix t X
      assume tx: "tx = (t, X)" and inv: "rename_inv a t"
      have a: "a \<noteq> []" using inv by (simp add: rename_inv_def)
      have IH: "returns a s' L" if "((s', L), (t, X)) \<in> smaller a" "rename_inv a s'" for s' L
        using 1 that tx by blast
      show "returns a t X"
      proof (cases "X = a")
        case True
        then show ?thesis using returns_alias[OF inv] by simp
      next
        case Xa: False
        show ?thesis
        proof (cases "findIdentifiers t X = []")
          case True
          then have "renameIdentifiers (Suc 0) t X (Some a) = Some (t, None)"
            using a by (simp add: renameIdentifiers_given del: renameIdentifiers.simps)
          then show ?thesis using inv unfolding returns_def by blast
        next
          case False
          have "findIdentifiers t X = [] @ findIdentifiers t X" by simp
          from loop_returns[OF Xa IH this inv evolves_refl] obtain fuel s' where
            fe: "forEach (\<lambda>p s. maybeRenameNode (renameIdentifiers fuel) s p a) (findIdentifiers t X) t = Some s'"
            and inv': "rename_inv a s'" by auto
          have "renameIdentifiers (Suc fuel) t X (Some a) = Some (s', Some a)"
            using a False fe by (simp add: renameIdentifiers_given del: renameIdentifiers.simps)
          then show ?thesis using inv' unfolding returns_def by blast
        qed
      qed
    qed
  qed
  then show ?thesis using assms by blast
qed

lemma renameIdentifiers_chosen:
  "renameIdentifiers fuel t X newName = renameIdentifiers fuel t X (Some (chosen_alias t X newName))"
proof (cases fuel)
  case 0
  then show ?thesis by simp
next
  case (Suc k)
  have "or_empty (Some (chosen_alias t X newName)) \<noteq> []"
    by (simp add: or_empty_def chosen_alias_nonempty)
  then show ?thesis
    by (simp add: Suc renameIdentifiers_body_def chosen_alias_def or_empty_def Let_def)
qed

lemma chosen_alias_fresh:
  assumes "\<forall>a. newName = Some a \<longrightarrow> findIdentifiers t a = []"
  shows "findIdentifiers t (chosen_alias t X newName) = []"
proof (cases "or_empty newName \<noteq> []")
  case True
  then obtain a where "newName = Some a" "a \<noteq> []" by (cases newName) (auto simp: or_empty_def)
  with assms show ?thesis by (simp add: chosen_alias_def or_empty_def)
next
  case False
  then show ?thesis using findAvailibleAlias_fresh[of t X] by (simp add: chosen_alias_def)
qed

lemma renameIdentifiers_total:
  assumes names: "findIdentifiers t [] = []"
    and fresh: "\<forall>a. newName = Some a \<longrightarrow> findIdentifiers t a = []"
  obtains fuel0 t' r where
    "\<And>fuel. fuel0 \<le> fuel \<Longrightarrow> renameIdentifiers fuel t X newName = Some (t', r)"
proof -
  let ?A = "chosen_alias t X newName"
  have "rename_inv ?A t"
    using chosen_alias_nonempty names chosen_alias_fresh[OF fresh] by (rule fresh_rename_inv)
  then have "returns ?A t X" by (rule renameIdentifiers_returns)
  then obtain fuel0 t' r where r: "renameIdentifiers fuel0 t X (Some ?A) = Some (t', r)"
    unfolding returns_def by blast
  have "renameIdentifiers fuel t X newName = Some (t', r)" if "fuel0 \<le> fuel" for fuel
    using renameIdentifiers_more_fuel[OF r that] by (subst renameIdentifiers_chosen)
  then show ?thesis by (rule that)
qed


text \<open>
  Claim C4. \<^verbatim>\<open>maybeRenameNode\<close> is called on the occurrences of \<open>origName\<close>, in trees
  that satisfy \<open>rename_inv\<close> for the alias. If the occurrence is the imported side of an
  import specifier, the key of a property of an object pattern or of an object literal, or
  the property of a member expression, the call returns at once with the tree as it was,
  whatever function it would call back: the name is left as it is. In every other context
  the call returns, for every nesting depth from some depth on, and the occurrence is
  named with the alias in the tree that it returns.
\<close>

theorem maybeRenameNode_decision_table:
  assumes inv: "rename_inv alias ast"
    and occ: "ident_at ast identifierPath = Some origName"
  shows "(do_not_rename ast identifierPath \<longrightarrow>
            (\<forall>rename. maybeRenameNode rename ast identifierPath alias = Some ast))
         \<and> (\<not> do_not_rename ast identifierPath \<longrightarrow>
              (\<exists>fuel0 ast'.
                 (\<forall>fuel \<ge> fuel0. maybeRenameNode (renameIdentifiers fuel) ast identifierPath alias = Some ast')
                 \<and> ident_at ast' identifierPath = Some alias))"
proof (intro conjI impI)
  assume "do_not_rename ast identifierPath"
  then show "\<forall>rename. maybeRenameNode rename ast identifierPath alias = Some ast"
    by (simp add: maybeRenameNode_exempt)
next
  assume ne: "\<not> do_not_rename ast identifierPath"
  let ?p = identifierPath
  have a: "alias \<noteq> []" using inv by (simp add: rename_inv_def)
  have "rename_inv alias (shorthand_fixup ast ?p)" using inv by (rule rename_inv_fixup)
  then have "returns alias (shorthand_fixup ast ?p) (or_empty (local_name (parent_of ast ?p)))"
    by (rule renameIdentifiers_returns)
  then obtain fuel0 t3 r where
    call: "renameIdentifiers fuel0 (shorthand_fixup ast ?p) (or_empty (local_name (parent_of ast ?p))) (Some alias)
             = Some (t3, r)"
    unfolding returns_def by blast
  let ?ast' = "if reenters ast ?p then modify (set_name alias) ?p t3
               else modify (set_name alias) ?p (shorthand_fixup ast ?p)"
  have run: "maybeRenameNode (renameIdentifiers fuel) ast ?p alias = Some ?ast'" if "fuel0 \<le> fuel" for fuel
    unfolding maybeRenameNode_rename[OF ne]
    using renameIdentifiers_more_fuel[OF call that] by simp
  have "ident_at ?ast' ?p = Some alias"
    using maybeRenameNode_sets_alias[OF rename_ok_renameIdentifiers a run[OF order_refl] ne] occ
    by simp
  with run show "\<exists>fuel0 ast'.
      (\<forall>fuel \<ge> fuel0. maybeRenameNode (renameIdentifiers fuel) ast ?p alias = Some ast')
      \<and> ident_at ast' ?p = Some alias"
    by blast
qed


text \<open>
  Claim C5, as amended. Let the tree have an export specifier whose exported part is named
  \<open>N\<close> and whose local part is an identifier \<open>L\<close>, let no identifier have the empty
  name, and let the alias be generated by the call or be a given name that the tree does
  not use. Then \<^verbatim>\<open>renameIdentifiers(tree, N, newName)\<close> returns, for every nesting depth
  from some depth on, an alias \<open>A\<close> and a tree in which both parts of that specifier
  are named \<open>A\<close>, every identifier that was named \<open>L\<close> outside the do-not-rename
  positions is named \<open>A\<close>, and every identifier named \<open>L\<close> in a do-not-rename position
  is still named \<open>L\<close>.
\<close>

theorem renameIdentifiers_export_specifier:
  assumes names: "findIdentifiers T [] = []"
    and fresh: "\<forall>a. newName = Some a \<longrightarrow> findIdentifiers T a = []"
    and spec: "get T q = Some (ExportSpecifier (Some (Identifier L)) (Identifier N))"
  shows "\<exists>fuel0 T' A.
           (\<forall>fuel \<ge> fuel0. renameIdentifiers fuel T N newName = Some (T', Some A))
           \<and> get T' q = Some (ExportSpecifier (Some (Identifier A)) (Identifier A))
           \<and> (\<forall>p. p \<noteq> [] \<and> get T p = Some (Identifier L)
                  \<longrightarrow> get T' p = Some (Identifier (if do_not_rename T p then L else A)))"
proof -
  from renameIdentifiers_total[OF names fresh, of N] obtain fuel0 T' r where
    run: "\<And>fuel. fuel0 \<le> fuel \<Longrightarrow> renameIdentifiers fuel T N newName = Some (T', r)"
    by blast
  note res = run[OF order_refl]
  from export_specifier_renamed[OF res spec] obtain A where A: "r = Some A"
    and sp: "get T' q = Some (ExportSpecifier (Some (Identifier A)) (Identifier A))"
    and ren: "\<forall>p. p \<noteq> [] \<and> get T p = Some (Identifier L) \<and> \<not> do_not_rename T p
                  \<longrightarrow> get T' p = Some (Identifier A)"
    by blast
  have "get T' p = Some (Identifier (if do_not_rename T p then L else A))"
    if p: "p \<noteq> []" "get T p = Some (Identifier L)" for p
  proof (cases "do_not_rename T p")
    case True
    have "ident_at T' p = ident_at T p"
      using renameIdentifiers_keeps_exempt[OF res True] .
    then show ?thesis using p(2) True by (simp add: ident_at_Some_iff[symmetric])
  next
    case False
    then show ?thesis using ren p by simp
  qed
  with run A sp show ?thesis by blast
qed

text \<open>
  The module \<^verbatim>\<open>api.load; function load() {}; export { load as getStaticProps }\<close>,
  before and after \<^verbatim>\<open>renameIdentifiers(ast, 'getStaticProps', '_getStaticProps')\<close>.
\<close>

definition export_alias_tree :: ast where
  "export_alias_tree = module [
     Other ''ExpressionStatement'' [MemberExpression (Identifier ''api'') (Identifier ''load'') False],
     Other ''FunctionDeclaration'' [Identifier ''load''],
     Other ''ExportNamedDeclaration''
       [ExportSpecifier (Some (Identifier ''load'')) (Identifier ''getStaticProps'')]]"

definition export_alias_tree_renamed :: ast where
  "export_alias_tree_renamed = module [
     Other ''ExpressionStatement'' [MemberExpression (Identifier ''api'') (Identifier ''load'') False],
     Other ''FunctionDeclaration'' [Identifier ''_getStaticProps''],
     Other ''ExportNamedDeclaration''
       [ExportSpecifier (Some (Identifier ''_getStaticProps'')) (Identifier ''_getStaticProps'')]]"

lemma export_alias_tree_run:
  "renameIdentifiers (Suc (Suc 0)) export_alias_tree ''getStaticProps'' (Some ''_getStaticProps'')
     = Some (export_alias_tree_renamed, Some ''_getStaticProps'')"
  by (simp add: tree_eval rename_eval module_def export_alias_tree_def export_alias_tree_renamed_def)

lemma export_alias_tree_specifier:
  "get export_alias_tree [Elem 0, Elem 2, Elem 0]
     = Some (ExportSpecifier (Some (Identifier ''load'')) (Identifier ''getStaticProps''))"
  by (simp add: child_simps module_def export_alias_tree_def)

lemma export_alias_tree_function:
  "get export_alias_tree [Elem 0, Elem 1, Elem 0] = Some (Identifier ''load'')"
  "\<not> do_not_rename export_alias_tree [Elem 0, Elem 1, Elem 0]"
  by (simp_all add: do_not_rename_def rename_eval module_def export_alias_tree_def)

lemma export_alias_tree_facts:
  "rename_inv ''_getStaticProps'' export_alias_tree"
  "ident_at export_alias_tree [Elem 0, Elem 0, Elem 0, PropertyF] = Some ''load''"
  "do_not_rename export_alias_tree [Elem 0, Elem 0, Elem 0, PropertyF]"
  "findIdentifiers export_alias_tree [] = []"
proof -
  show "rename_inv ''_getStaticProps'' export_alias_tree"
    by (rule fresh_rename_inv) (simp_all add: tree_eval module_def export_alias_tree_def)
qed (simp_all add: ident_at_def do_not_rename_def tree_eval rename_eval module_def export_alias_tree_def)


lemma export_alias_tree_generated:
  "renameIdentifiers (Suc (Suc 0)) export_alias_tree ''getStaticProps'' None
     = Some (export_alias_tree_renamed, Some ''_getStaticProps'')"
  by (simp add: tree_eval rename_eval module_def export_alias_tree_def export_alias_tree_renamed_def)

lemma export_alias_tree_property:
  "get export_alias_tree [Elem 0, Elem 0, Elem 0, PropertyF] = Some (Identifier ''load'')"
  using export_alias_tree_facts(2) by (simp add: ident_at_Some_iff)

theorem renameIdentifiers_export_specifier_witness:
  "findIdentifiers export_alias_tree [] = []
   \<and> get export_alias_tree [Elem 0, Elem 2, Elem 0]
       = Some (ExportSpecifier (Some (Identifier ''load'')) (Identifier ''getStaticProps''))
   \<and> renameIdentifiers (Suc (Suc 0)) export_alias_tree ''getStaticProps'' None
       = Some (export_alias_tree_renamed, Some ''_getStaticProps'')
   \<and> get export_alias_tree_renamed [Elem 0, Elem 2, Elem 0]
       = Some (ExportSpecifier (Some (Identifier ''_getStaticProps'')) (Identifier ''_getStaticProps''))
   \<and> get export_alias_tree_renamed [Elem 0, Elem 1, Elem 0] = Some (Identifier ''_getStaticProps'')
   \<and> get export_alias_tree_renamed [Elem 0, Elem 0, Elem 0, PropertyF] = Some (Identifier ''load'')"
proof -
  have fresh: "\<forall>a. (None :: string option) = Some a \<longrightarrow> findIdentifiers export_alias_tree a = []"
    by simp
  from renameIdentifiers_export_specifier[OF export_alias_tree_facts(4) fresh export_alias_tree_specifier]
  obtain fuel0 T' A where
    run: "\<forall>fuel \<ge> fuel0. renameIdentifiers fuel export_alias_tree ''getStaticProps'' None = Some (T', Some A)"
    and spec: "get T' [Elem 0, Elem 2, Elem 0] = Some (ExportSpecifier (Some (Identifier A)) (Identifier A))"
    and rest: "\<forall>p. p \<noteq> [] \<and> get export_alias_tree p = Some (Identifier ''load'')
                 \<longrightarrow> get T' p = Some (Identifier (if do_not_rename export_alias_tree p then ''load'' else A))"
    by blast
  let ?f = "max fuel0 (Suc (Suc 0))"
  have "renameIdentifiers ?f export_alias_tree ''getStaticProps'' None
          = Some (export_alias_tree_renamed, Some ''_getStaticProps'')"
    using renameIdentifiers_more_fuel[OF export_alias_tree_generated, of ?f] by simp
  moreover have "renameIdentifiers ?f export_alias_tree ''getStaticProps'' None = Some (T', Some A)"
    using run by simp
  ultimately have T': "T' = export_alias_tree_renamed" and A: "A = ''_getStaticProps''" by simp_all
  have "get export_alias_tree_renamed [Elem 0, Elem 1, Elem 0] = Some (Identifier ''_getStaticProps'')"
    using rest[rule_format, of "[Elem 0, Elem 1, Elem 0]"] export_alias_tree_function
    unfolding T' A by simp
  moreover have "get export_alias_tree_renamed [Elem 0, Elem 0, Elem 0, PropertyF] = Some (Identifier ''load'')"
    using rest[rule_format, of "[Elem 0, Elem 0, Elem 0, PropertyF]"]
      export_alias_tree_property export_alias_tree_facts(3)
    unfolding T' A by simp
  ultimately show ?thesis
    using export_alias_tree_facts(4) export_alias_tree_specifier export_alias_tree_generated
      spec[unfolded T' A]
    by simp
qed

text \<open>
  Claim C5 as stated says that every occurrence of the local name is renamed. In the module
  above the property of \<^verbatim>\<open>api.load\<close> is an occurrence of the local name \<^verbatim>\<open>load\<close> and
  keeps its name: the nested call applies the same decision table.
\<close>

theorem renameIdentifiers_export_keeps_property:
  "get export_alias_tree [Elem 0, Elem 2, Elem 0]
     = Some (ExportSpecifier (Some (Identifier ''load'')) (Identifier ''getStaticProps''))
   \<and> get export_alias_tree [Elem 0, Elem 0, Elem 0, PropertyF] = Some (Identifier ''load'')
   \<and> renameIdentifiers (Suc (Suc 0)) export_alias_tree ''getStaticProps'' (Some ''_getStaticProps'')
       = Some (export_alias_tree_renamed, Some ''_getStaticProps'')
   \<and> get export_alias_tree_renamed [Elem 0, Elem 0, Elem 0, PropertyF] = Some (Identifier ''load'')"
  using export_alias_tree_run export_alias_tree_specifier
  by (simp add: child_simps module_def export_alias_tree_def export_alias_tree_renamed_def)

text \<open>
  Claim C10. For every tree with a member expression whose property is an identifier
  named \<open>origName\<close>, \<^verbatim>\<open>maybeRenameNode\<close> on that occurrence returns at once and leaves
  the tree as it is, whatever the \<^verbatim>\<open>computed\<close> flag of the member expression: the branch
  does not read the flag.
\<close>

theorem maybeRenameNode_member_property:
  assumes "get T q = Some (MemberExpression ob (Identifier origName) computed)"
  shows "maybeRenameNode rename T (q @ [PropertyF]) newName = Some T
         \<and> get T (q @ [PropertyF]) = Some (Identifier origName)"
proof -
  have "do_not_rename T (q @ [PropertyF])"
    using assms by (simp add: do_not_rename_def parent_of_snoc MemberExpression_check_def)
  then have "maybeRenameNode rename T (q @ [PropertyF]) newName = Some T"
    by (rule maybeRenameNode_exempt)
  moreover have "get T (q @ [PropertyF]) = Some (Identifier origName)"
    using assms by (simp add: get_append child_simps)
  ultimately show ?thesis by simp
qed

text \<open>The module \<^verbatim>\<open>handlers[getStaticProps]\<close>: a computed member access.\<close>

definition computed_member_tree :: ast where
  "computed_member_tree = module [
     Other ''ExpressionStatement''
       [MemberExpression (Identifier ''handlers'') (Identifier ''getStaticProps'') True]]"

theorem maybeRenameNode_member_property_witness:
  "get computed_member_tree [Elem 0, Elem 0, Elem 0]
     = Some (MemberExpression (Identifier ''handlers'') (Identifier ''getStaticProps'') True)
   \<and> maybeRenameNode (renameIdentifiers 0) computed_member_tree
         [Elem 0, Elem 0, Elem 0, PropertyF] ''_getStaticProps'' = Some computed_member_tree
   \<and> get computed_member_tree [Elem 0, Elem 0, Elem 0, PropertyF]
       = Some (Identifier ''getStaticProps'')"
proof -
  have g: "get computed_member_tree [Elem 0, Elem 0, Elem 0]
     = Some (MemberExpression (Identifier ''handlers'') (Identifier ''getStaticProps'') True)"
    by (simp add: child_simps module_def computed_member_tree_def)
  show ?thesis
    using g maybeRenameNode_member_property[OF g, of "renameIdentifiers 0" "''_getStaticProps''"]
    by simp
qed

section \<open>An alias that is already in use\<close>

text \<open>
  The module
  \<^verbatim>\<open>const _getStaticProps = 1, getStaticProps = 2;
  export { _getStaticProps as getStaticProps, getStaticProps as _getStaticProps };\<close>
  and the call \<^verbatim>\<open>renameIdentifiers(ast, 'getStaticProps', '_getStaticProps')\<close>, whose alias
  is already a name of the module. \<open>swapped_exports_1\<close> is the tree once the declarator
  \<^verbatim>\<open>getStaticProps\<close> has been renamed. On the exported side of the first specifier
  \<^verbatim>\<open>maybeRenameNode\<close> re-enters \<^verbatim>\<open>renameIdentifiers\<close> for \<^verbatim>\<open>_getStaticProps\<close>, which
  reaches the exported side of the second specifier and re-enters for
  \<^verbatim>\<open>getStaticProps\<close>, which reaches the first specifier again, in the same tree.
\<close>

definition swapped_exports :: ast where
  "swapped_exports = module [
     VariableDeclaration
       [VariableDeclarator (Identifier ''_getStaticProps'') (Some (Other ''Literal'' [])),
        VariableDeclarator (Identifier ''getStaticProps'') (Some (Other ''Literal'' []))],
     Other ''ExportNamedDeclaration''
       [ExportSpecifier (Some (Identifier ''_getStaticProps'')) (Identifier ''getStaticProps''),
        ExportSpecifier (Some (Identifier ''getStaticProps'')) (Identifier ''_getStaticProps'')]]"

definition swapped_exports_1 :: ast where
  "swapped_exports_1 = module [
     VariableDeclaration
       [VariableDeclarator (Identifier ''_getStaticProps'') (Some (Other ''Literal'' [])),
        VariableDeclarator (Identifier ''_getStaticProps'') (Some (Other ''Literal'' []))],
     Other ''ExportNamedDeclaration''
       [ExportSpecifier (Some (Identifier ''_getStaticProps'')) (Identifier ''getStaticProps''),
        ExportSpecifier (Some (Identifier ''getStaticProps'')) (Identifier ''_getStaticProps'')]]"

lemmas swapped_defs = module_def swapped_exports_def swapped_exports_1_def

lemma swapped_find:
  "findIdentifiers swapped_exports ''getStaticProps''
     = [[Elem 0, Elem 0, Elem (Suc 0), Id], [Elem 0, Elem (Suc 0), Elem 0, Exported], [Elem 0, Elem (Suc 0), Elem (Suc 0), Local]]"
  "findIdentifiers swapped_exports_1 ''getStaticProps''
     = [[Elem 0, Elem (Suc 0), Elem 0, Exported], [Elem 0, Elem (Suc 0), Elem (Suc 0), Local]]"
  "findIdentifiers swapped_exports_1 ''_getStaticProps''
     = [[Elem 0, Elem 0, Elem 0, Id], [Elem 0, Elem 0, Elem (Suc 0), Id],
        [Elem 0, Elem (Suc 0), Elem 0, Local], [Elem 0, Elem (Suc 0), Elem (Suc 0), Exported]]"
  by (simp_all add: tree_eval swapped_defs)

lemma swapped_plain_steps:
  "maybeRenameNode rn swapped_exports [Elem 0, Elem 0, Elem (Suc 0), Id] ''_getStaticProps'' = Some swapped_exports_1"
  "maybeRenameNode rn swapped_exports_1 [Elem 0, Elem 0, Elem 0, Id] ''_getStaticProps'' = Some swapped_exports_1"
  "maybeRenameNode rn swapped_exports_1 [Elem 0, Elem 0, Elem (Suc 0), Id] ''_getStaticProps'' = Some swapped_exports_1"
  "maybeRenameNode rn swapped_exports_1 [Elem 0, Elem (Suc 0), Elem 0, Local] ''_getStaticProps'' = Some swapped_exports_1"
  by (simp_all add: rename_eval swapped_defs)

lemma swapped_reentering_steps:
  "maybeRenameNode rn swapped_exports_1 [Elem 0, Elem (Suc 0), Elem 0, Exported] ''_getStaticProps''
     = (case rn swapped_exports_1 ''_getStaticProps'' (Some ''_getStaticProps'') of
          None \<Rightarrow> None
        | Some (t3, r) \<Rightarrow> Some (modify (set_name ''_getStaticProps'') [Elem 0, Elem (Suc 0), Elem 0, Exported] t3))"
  "maybeRenameNode rn swapped_exports_1 [Elem 0, Elem (Suc 0), Elem (Suc 0), Exported] ''_getStaticProps''
     = (case rn swapped_exports_1 ''getStaticProps'' (Some ''_getStaticProps'') of
          None \<Rightarrow> None
        | Some (t3, r) \<Rightarrow> Some (modify (set_name ''_getStaticProps'') [Elem 0, Elem (Suc 0), Elem (Suc 0), Exported] t3))"
  by (simp_all add: maybeRenameNode_def Let_def parent_of_def grandparent_of_def
        ImportSpecifier_check_def Property_check_def MemberExpression_check_def
        ExportSpecifier_check_def exported_name_def local_name_def name_of_def or_empty_def
        child_simps swapped_defs)

lemma swapped_cycle:
  "renameIdentifiers fuel swapped_exports_1 ''_getStaticProps'' (Some ''_getStaticProps'') = None
   \<and> renameIdentifiers fuel swapped_exports_1 ''getStaticProps'' (Some ''_getStaticProps'') = None"
proof (induction fuel)
  case 0
  show ?case by simp
next
  case (Suc fuel)
  then show ?case
    by (simp add: renameIdentifiers_given swapped_find swapped_plain_steps swapped_reentering_steps
          del: renameIdentifiers.simps)
qed

text \<open>
  With this alias, which is not one that the code generates, neither the call of
  \<^verbatim>\<open>renameIdentifiers\<close> nor the call of \<^verbatim>\<open>maybeRenameNode\<close> on the exported side of
  the first specifier returns, whatever the nesting depth allowed. The tree does not
  satisfy \<open>rename_inv\<close> for it. The only call in the repository that passes an alias
  is the nested one, which passes on the alias of the call it is nested in.
\<close>

lemma renameIdentifiers_swapped_exports_never_returns:
  "\<forall>fuel.
     renameIdentifiers fuel swapped_exports ''getStaticProps'' (Some ''_getStaticProps'') = None
     \<and> maybeRenameNode (renameIdentifiers fuel) swapped_exports_1
           [Elem 0, Elem (Suc 0), Elem 0, Exported] ''_getStaticProps'' = None"
proof
  fix fuel
  have "renameIdentifiers fuel swapped_exports ''getStaticProps'' (Some ''_getStaticProps'') = None"
  proof (cases fuel)
    case 0
    then show ?thesis by simp
  next
    case (Suc k)
    then show ?thesis
      using swapped_cycle[of k]
      by (simp add: renameIdentifiers_given swapped_find swapped_plain_steps swapped_reentering_steps
            del: renameIdentifiers.simps)
  qed
  moreover have "maybeRenameNode (renameIdentifiers fuel) swapped_exports_1
           [Elem 0, Elem (Suc 0), Elem 0, Exported] ''_getStaticProps'' = None"
    using swapped_cycle[of fuel] by (simp add: swapped_reentering_steps)
  ultimately show "renameIdentifiers fuel swapped_exports ''getStaticProps'' (Some ''_getStaticProps'') = None
     \<and> maybeRenameNode (renameIdentifiers fuel) swapped_exports_1
           [Elem 0, Elem (Suc 0), Elem 0, Exported] ''_getStaticProps'' = None" by simp
qed

text \<open>
  With the alias that \<^verbatim>\<open>findAvailibleAlias\<close> generates for this module,
  \<^verbatim>\<open>__getStaticProps\<close>, the call on the same occurrence returns;
  \<open>swapped_exports_renamed\<close> is the tree that it returns.
\<close>

definition swapped_exports_renamed :: ast where
  "swapped_exports_renamed = module [
     VariableDeclaration
       [VariableDeclarator (Identifier ''__getStaticProps'') (Some (Other ''Literal'' [])),
        VariableDeclarator (Identifier ''__getStaticProps'') (Some (Other ''Literal'' []))],
     Other ''ExportNamedDeclaration''
       [ExportSpecifier (Some (Identifier ''__getStaticProps'')) (Identifier ''__getStaticProps''),
        ExportSpecifier (Some (Identifier ''__getStaticProps'')) (Identifier ''__getStaticProps'')]]"

lemma swapped_exports_inv: "rename_inv ''__getStaticProps'' swapped_exports"
  by (rule fresh_rename_inv) (simp_all add: tree_eval swapped_defs)

lemma swapped_exports_occurrence:
  "ident_at swapped_exports [Elem 0, Elem (Suc 0), Elem 0, Exported] = Some ''getStaticProps''"
  "\<not> do_not_rename swapped_exports [Elem 0, Elem (Suc 0), Elem 0, Exported]"
  by (simp_all add: ident_at_def do_not_rename_def rename_eval swapped_defs)

lemma swapped_exports_generated_alias:
  "maybeRenameNode (renameIdentifiers (Suc (Suc (Suc 0)))) swapped_exports
       [Elem 0, Elem (Suc 0), Elem 0, Exported] ''__getStaticProps''
     = Some swapped_exports_renamed"
  by (simp add: tree_eval rename_eval swapped_defs swapped_exports_renamed_def)

theorem maybeRenameNode_decision_table_witness:
  "rename_inv ''__getStaticProps'' swapped_exports
   \<and> ident_at swapped_exports [Elem 0, Elem (Suc 0), Elem 0, Exported] = Some ''getStaticProps''
   \<and> \<not> do_not_rename swapped_exports [Elem 0, Elem (Suc 0), Elem 0, Exported]
   \<and> maybeRenameNode (renameIdentifiers (Suc (Suc (Suc 0)))) swapped_exports
         [Elem 0, Elem (Suc 0), Elem 0, Exported] ''__getStaticProps'' = Some swapped_exports_renamed
   \<and> ident_at swapped_exports_renamed [Elem 0, Elem (Suc 0), Elem 0, Exported] = Some ''__getStaticProps''
   \<and> rename_inv ''_getStaticProps'' export_alias_tree
   \<and> ident_at export_alias_tree [Elem 0, Elem 0, Elem 0, PropertyF] = Some ''load''
   \<and> do_not_rename export_alias_tree [Elem 0, Elem 0, Elem 0, PropertyF]
   \<and> maybeRenameNode (renameIdentifiers 0) export_alias_tree
         [Elem 0, Elem 0, Elem 0, PropertyF] ''_getStaticProps'' = Some export_alias_tree"
proof -
  let ?e = "[Elem 0, Elem (Suc 0), Elem 0, Exported]"
  from maybeRenameNode_decision_table[OF swapped_exports_inv swapped_exports_occurrence(1)]
    swapped_exports_occurrence(2)
  obtain fuel0 ast' where
    run: "\<forall>fuel \<ge> fuel0. maybeRenameNode (renameIdentifiers fuel) swapped_exports ?e ''__getStaticProps''
            = Some ast'"
    and named: "ident_at ast' ?e = Some ''__getStaticProps''"
    by blast
  let ?f = "max fuel0 (Suc (Suc (Suc 0)))"
  have "maybeRenameNode (renameIdentifiers ?f) swapped_exports ?e ''__getStaticProps''
          = Some swapped_exports_renamed"
    using maybeRenameNode_more_fuel[OF swapped_exports_generated_alias, of ?f] by simp
  moreover have "maybeRenameNode (renameIdentifiers ?f) swapped_exports ?e ''__getStaticProps'' = Some ast'"
    using run by simp
  ultimately have "ast' = swapped_exports_renamed" by simp
  with named have n: "ident_at swapped_exports_renamed ?e = Some ''__getStaticProps''" by simp
  have "maybeRenameNode (renameIdentifiers 0) export_alias_tree
         [Elem 0, Elem 0, Elem 0, PropertyF] ''_getStaticProps'' = Some export_alias_tree"
    using maybeRenameNode_decision_table[OF export_alias_tree_facts(1,2)] export_alias_tree_facts(3)
    by blast
  then show ?thesis
    using swapped_exports_inv swapped_exports_occurrence swapped_exports_generated_alias n
      export_alias_tree_facts(1,2,3)
    by simp
qed


section \<open>The per-name pass of the driver on the user tree\<close>

text \<open>
  The driver does not call \<^verbatim>\<open>renameIdentifiers\<close>: it assigns the alias to the node of
  every path that \<^verbatim>\<open>findIdentifiers\<close> returned (\<open>rename_all\<close>), and records the alias.
\<close>

definition rename_all :: "ast \<Rightarrow> path list \<Rightarrow> string \<Rightarrow> ast" where
  "rename_all t ps a = fold (\<lambda>nodePath. modify (set_name a) nodePath) ps t"

lemma ident_at_rename_all:
  "ident_at (rename_all t ps a) q = (if q \<in> set ps \<and> ident_at t q \<noteq> None then Some a else ident_at t q)"
  unfolding rename_all_def
proof (induction ps arbitrary: t)
  case Nil
  then show ?case by simp
next
  case (Cons p ps)
  show ?case by (auto simp: Cons.IH ident_at_set_name)
qed

lemma perName_found:
  assumes "findIdentifiers u n \<noteq> []"
  shows "perName n (u, t, r) =
           (rename_all u (findIdentifiers u n) (findAvailibleAlias u n), t,
            set_alias r n (findAvailibleAlias u n))"
  using assms by (simp add: perName_def rename_all_def Let_def)

lemma renameIdentifiers_found_alias:
  assumes "renameIdentifiers fuel t X None = Some (t', r)" "findIdentifiers t X \<noteq> []"
  shows "r = Some (findAvailibleAlias t X)"
proof -
  from assms(1) obtain k where
    "renameIdentifiers_body (renameIdentifiers k) t X None = Some (t', r)"
    by (rule renameIdentifiers_Some_fuel)
  then show ?thesis
    using assms(2) by (cases rule: renameIdentifiers_body_cases) (simp_all add: chosen_alias_def or_empty_def)
qed


text \<open>
  Claim C1 says that the per-name pass renames the occurrences as \<^verbatim>\<open>renameIdentifiers\<close>
  does, with the do-not-rename exemptions. On the code, for every user tree in which no
  identifier has the empty name, and every occurrence of \<open>N\<close> in a do-not-rename
  position: \<^verbatim>\<open>renameIdentifiers(userAST, N)\<close> returns the alias
  \<open>findAvailibleAlias userAST N\<close> and a tree in which that occurrence is still named
  \<open>N\<close>, whereas in the tree that the per-name pass leaves, the occurrence is named with
  the alias. The two trees differ. This is the renaming that, in the words of the comment
  above \<^verbatim>\<open>maybeRenameNode\<close>, breaks the link between an outside thing and the module's
  reference to it.
\<close>

theorem perName_renames_do_not_rename_positions:
  assumes names: "findIdentifiers userAST [] = []"
    and occ: "p \<in> set (findIdentifiers userAST N)"
    and exempt: "do_not_rename userAST p"
  shows "\<exists>fuel0 renamed.
           (\<forall>fuel \<ge> fuel0. renameIdentifiers fuel userAST N None
                              = Some (renamed, Some (findAvailibleAlias userAST N)))
           \<and> ident_at renamed p = Some N
           \<and> ident_at (fst (perName N (userAST, templateAST, reg))) p
               = Some (findAvailibleAlias userAST N)
           \<and> findAvailibleAlias userAST N \<noteq> N
           \<and> fst (perName N (userAST, templateAST, reg)) \<noteq> renamed"
proof -
  let ?A = "findAvailibleAlias userAST N"
  have found: "findIdentifiers userAST N \<noteq> []" using occ by auto
  have p: "p \<noteq> []" "ident_at userAST p = Some N" using occ by (simp_all add: in_findIdentifiers_iff)
  from renameIdentifiers_total[OF names, of None N] obtain fuel0 renamed r where
    run: "\<And>fuel. fuel0 \<le> fuel \<Longrightarrow> renameIdentifiers fuel userAST N None = Some (renamed, r)"
    by auto
  note res = run[OF order_refl]
  have r: "r = Some ?A" using renameIdentifiers_found_alias[OF res found] .
  have kept: "ident_at renamed p = Some N"
    using renameIdentifiers_keeps_exempt[OF res exempt] p(2) by simp
  have driver: "ident_at (fst (perName N (userAST, templateAST, reg))) p = Some ?A"
    using occ p(2) by (simp add: perName_found[OF found] ident_at_rename_all)
  have "findIdentifiers userAST ?A = []" using findAvailibleAlias_fresh[of userAST N] by simp
  with found have ne: "?A \<noteq> N" by auto
  from kept driver ne have "fst (perName N (userAST, templateAST, reg)) \<noteq> renamed" by auto
  with run r kept driver ne show ?thesis by blast
qed


text \<open>
  The module
  \<^verbatim>\<open>import * as page from './page'; export const getStaticProps = () => page.getStaticProps();\<close>
  after the per-name pass of the driver (\<open>delegating_page_tree_driver\<close>, which calls
  \<^verbatim>\<open>page._getStaticProps\<close>) and after \<^verbatim>\<open>renameIdentifiers\<close>
  (\<open>delegating_page_tree_renamer\<close>).
\<close>

definition delegating_page_tree :: ast where
  "delegating_page_tree = module [
     Other ''ImportDeclaration''
       [Other ''ImportNamespaceSpecifier'' [Identifier ''page''], Other ''Literal'' []],
     Other ''ExportNamedDeclaration''
       [VariableDeclaration
          [VariableDeclarator (Identifier ''getStaticProps'')
             (Some (Other ''ArrowFunctionExpression''
                [Other ''CallExpression''
                   [MemberExpression (Identifier ''page'') (Identifier ''getStaticProps'') False]]))]]]"

definition delegating_page_tree_driver :: ast where
  "delegating_page_tree_driver = module [
     Other ''ImportDeclaration''
       [Other ''ImportNamespaceSpecifier'' [Identifier ''page''], Other ''Literal'' []],
     Other ''ExportNamedDeclaration''
       [VariableDeclaration
          [VariableDeclarator (Identifier ''_getStaticProps'')
             (Some (Other ''ArrowFunctionExpression''
                [Other ''CallExpression''
                   [MemberExpression (Identifier ''page'') (Identifier ''_getStaticProps'') False]]))]]]"

definition delegating_page_tree_renamer :: ast where
  "delegating_page_tree_renamer = module [
     Other ''ImportDeclaration''
       [Other ''ImportNamespaceSpecifier'' [Identifier ''page''], Other ''Literal'' []],
     Other ''ExportNamedDeclaration''
       [VariableDeclaration
          [VariableDeclarator (Identifier ''_getStaticProps'')
             (Some (Other ''ArrowFunctionExpression''
                [Other ''CallExpression''
                   [MemberExpression (Identifier ''page'') (Identifier ''getStaticProps'') False]]))]]]"

definition delegated_property :: path where
  "delegated_property = [Elem 0, Elem (Suc 0), Elem 0, Elem 0, Init, Elem 0, Elem 0, PropertyF]"

lemmas delegating_defs = module_def delegating_page_tree_def delegating_page_tree_driver_def
  delegating_page_tree_renamer_def delegated_property_def

lemma delegating_page_facts:
  "findIdentifiers delegating_page_tree [] = []"
  "findIdentifiers delegating_page_tree ''getStaticProps''
     = [[Elem 0, Elem (Suc 0), Elem 0, Elem 0, Id], delegated_property]"
  "do_not_rename delegating_page_tree delegated_property"
  by (simp_all add: tree_eval do_not_rename_def rename_eval delegating_defs)

lemma delegating_page_runs:
  "renameIdentifiers (Suc 0) delegating_page_tree ''getStaticProps'' None
     = Some (delegating_page_tree_renamer, Some ''_getStaticProps'')"
  "fst (perName ''getStaticProps'' (delegating_page_tree, module [], DATA_FETCHING_FUNCTIONS))
     = delegating_page_tree_driver"
  by (simp_all add: perName_def tree_eval rename_eval delegating_defs)

theorem perName_renames_do_not_rename_positions_witness:
  "findIdentifiers delegating_page_tree [] = []
   \<and> delegated_property \<in> set (findIdentifiers delegating_page_tree ''getStaticProps'')
   \<and> do_not_rename delegating_page_tree delegated_property
   \<and> renameIdentifiers (Suc 0) delegating_page_tree ''getStaticProps'' None
       = Some (delegating_page_tree_renamer, Some ''_getStaticProps'')
   \<and> fst (perName ''getStaticProps'' (delegating_page_tree, module [], DATA_FETCHING_FUNCTIONS))
       = delegating_page_tree_driver
   \<and> ident_at delegating_page_tree_renamer delegated_property = Some ''getStaticProps''
   \<and> ident_at delegating_page_tree_driver delegated_property = Some ''_getStaticProps''
   \<and> delegating_page_tree_driver \<noteq> delegating_page_tree_renamer"
proof -
  have occ: "delegated_property \<in> set (findIdentifiers delegating_page_tree ''getStaticProps'')"
    by (simp add: delegating_page_facts(2))
  from perName_renames_do_not_rename_positions[OF delegating_page_facts(1) occ delegating_page_facts(3),
      of "module []" DATA_FETCHING_FUNCTIONS]
  obtain fuel0 renamed where
    run: "\<forall>fuel \<ge> fuel0. renameIdentifiers fuel delegating_page_tree ''getStaticProps'' None
            = Some (renamed, Some (findAvailibleAlias delegating_page_tree ''getStaticProps''))"
    and kept: "ident_at renamed delegated_property = Some ''getStaticProps''"
    and driver: "ident_at (fst (perName ''getStaticProps''
                    (delegating_page_tree, module [], DATA_FETCHING_FUNCTIONS))) delegated_property
                  = Some (findAvailibleAlias delegating_page_tree ''getStaticProps'')"
    and differ: "fst (perName ''getStaticProps''
                    (delegating_page_tree, module [], DATA_FETCHING_FUNCTIONS)) \<noteq> renamed"
    by blast
  have "renameIdentifiers (max fuel0 (Suc 0)) delegating_page_tree ''getStaticProps'' None
          = Some (delegating_page_tree_renamer, Some ''_getStaticProps'')"
    using renameIdentifiers_more_fuel[OF delegating_page_runs(1), of "max fuel0 (Suc 0)"] by simp
  moreover have "renameIdentifiers (max fuel0 (Suc 0)) delegating_page_tree ''getStaticProps'' None
          = Some (renamed, Some (findAvailibleAlias delegating_page_tree ''getStaticProps''))"
    using run by simp
  ultimately have eq: "renamed = delegating_page_tree_renamer"
    and al: "findAvailibleAlias delegating_page_tree ''getStaticProps'' = ''_getStaticProps''"
    by simp_all
  show ?thesis
    using occ delegating_page_facts(1,3) delegating_page_runs kept driver differ
    unfolding eq al delegating_page_runs(2) by simp
qed


section \<open>The early returns and the parse failure of the loader\<close>

text \<open>The state of a process in which the loader has not run yet.\<close>

definition initial_state :: loader_state where
  "initial_state = \<lparr>registry = DATA_FETCHING_FUNCTIONS, warnings = [], parsed = []\<rparr>"

lemma str_includes_iff: "str_includes s sub \<longleftrightarrow> (\<exists>pre post. s = pre @ sub @ post)"
proof (induction s)
  case Nil
  then show ?case by auto
next
  case (Cons c cs)
  have "take (length sub) (c # cs) = sub \<longleftrightarrow> (\<exists>post. c # cs = sub @ post)"
    by (metis append_eq_conv_conj append_take_drop_id)
  moreover have "(\<exists>pre post. c # cs = pre @ sub @ post)
      \<longleftrightarrow> (\<exists>post. c # cs = sub @ post) \<or> (\<exists>pre post. cs = pre @ sub @ post)"
  proof
    assume "\<exists>pre post. c # cs = pre @ sub @ post"
    then obtain pre post where e: "c # cs = pre @ sub @ post" by blast
    show "(\<exists>post. c # cs = sub @ post) \<or> (\<exists>pre post. cs = pre @ sub @ post)"
    proof (cases pre)
      case Nil
      with e show ?thesis by auto
    next
      case (Cons a pre')
      with e have "cs = pre' @ sub @ post" by simp
      then show ?thesis by blast
    qed
  next
    assume "(\<exists>post. c # cs = sub @ post) \<or> (\<exists>pre post. cs = pre @ sub @ post)"
    then show "\<exists>pre post. c # cs = pre @ sub @ post"
    proof
      assume "\<exists>post. c # cs = sub @ post"
      then show ?thesis by (metis append_Nil)
    next
      assume "\<exists>pre post. cs = pre @ sub @ post"
      then obtain pre post where "cs = pre @ sub @ post" by blast
      then have "c # cs = (c # pre) @ sub @ post" by simp
      then show ?thesis by blast
    qed
  qed
  ultimately show ?case using Cons.IH by simp
qed

lemma replace_empty_text: "pat \<noteq> [] \<Longrightarrow> replace [] pat rep = []"
  by simp

lemma splice_empty_text:
  assumes "\<forall>tr \<in> set trs. placeholder tr \<noteq> []"
  shows "fold (\<lambda>tr code. replace code (placeholder tr) (aliasName tr)) trs [] = []"
  using assms by (induction trs) simp_all

lemma wrapFunctions_user_parse_error:
  assumes "makeAST e userCode (isTS_path path) = Inl err"
  shows "wrapFunctions e st userCode templCode path =
           ((userCode, []),
            st\<lparr>parsed := parsed st @ [(userCode, isTS_path path)],
               warnings := warnings st @ [warning_text path err]\<rparr>)"
  using assms by (simp add: wrapFunctions_def Let_def)

text \<open>
  Claim C3 says that a text that passes the module test and the substring pre-filter and
  does not parse is returned byte for byte, with exactly one warning. On the code: exactly
  one warning is added, and the text returned is the input followed by a newline, because
  \<^verbatim>\<open>wrapFunctions\<close> answers with an empty template text and the loader still returns
  \<^verbatim>\<open>`${modifiedUserCode}\n${injectedCode}`\<close>. The registry is any one whose placeholders are
  not empty, as those of \<^verbatim>\<open>DATA_FETCHING_FUNCTIONS\<close> are.
\<close>

theorem loader_parse_failure_appends_newline:
  assumes esm: "isESM e userCode"
    and pre: "\<exists>functionName \<in> set (map fst (registry st)). str_includes userCode functionName"
    and fail: "makeAST e userCode (isTS_path (filepath e)) = Inl err"
    and ph: "\<forall>tr \<in> set (map snd (registry st)). placeholder tr \<noteq> []"
  shows "fst (wrapDataFetchersLoader e st userCode) = userCode @ [CHR 0x0A]
         \<and> fst (wrapDataFetchersLoader e st userCode) \<noteq> userCode
         \<and> warnings (snd (wrapDataFetchersLoader e st userCode))
             = warnings st @ [warning_text (filepath e) err]"
proof -
  from pre have "\<not> list_all (\<lambda>functionName. \<not> str_includes userCode functionName) (map fst (registry st))"
    by (auto simp: list_all_iff)
  then show ?thesis
    using esm ph
    by (simp add: wrapDataFetchersLoader_def wrapFunctions_user_parse_error[OF fail]
          splice_empty_text)
qed

text \<open>
  An environment whose parser rejects every text, and a page that passes the pre-filter.
\<close>

definition rejecting_env :: env where
  "rejecting_env =
     \<lparr>isESM = (\<lambda>code. True),
      makeAST = (\<lambda>code isTS. Inl ''SyntaxError: Unexpected token (1:30)''),
      toSource = (\<lambda>t. []),
      templateCode = [],
      filepath = ''pages/index.js''\<rparr>"

definition unparsable_page :: string where
  "unparsable_page = ''export const getStaticProps = (''"

lemma unparsable_page_includes: "str_includes unparsable_page ''getStaticProps''"
  by (simp add: unparsable_page_def)

theorem loader_parse_failure_appends_newline_witness:
  "fst (wrapDataFetchersLoader rejecting_env initial_state unparsable_page)
     = unparsable_page @ [CHR 0x0A]
   \<and> fst (wrapDataFetchersLoader rejecting_env initial_state unparsable_page) \<noteq> unparsable_page
   \<and> warnings (snd (wrapDataFetchersLoader rejecting_env initial_state unparsable_page))
       = [warning_text ''pages/index.js'' ''SyntaxError: Unexpected token (1:30)'']"
proof -
  have esm: "isESM rejecting_env unparsable_page" by (simp add: rejecting_env_def)
  have pre: "\<exists>functionName \<in> set (map fst (registry initial_state)).
               str_includes unparsable_page functionName"
    using unparsable_page_includes by (simp add: initial_state_def DATA_FETCHING_FUNCTIONS_def)
  have fail: "makeAST rejecting_env unparsable_page (isTS_path (filepath rejecting_env))
                = Inl ''SyntaxError: Unexpected token (1:30)''"
    by (simp add: rejecting_env_def)
  have ph: "\<forall>tr \<in> set (map snd (registry initial_state)). placeholder tr \<noteq> []"
    by (simp add: initial_state_def DATA_FETCHING_FUNCTIONS_def)
  show ?thesis
    using loader_parse_failure_appends_newline[OF esm pre fail ph]
    by (simp add: initial_state_def rejecting_env_def)
qed

text \<open>
  Claim C8. For every user text in which none of the three tracked names occurs as a
  substring, the loader returns the user text unchanged and leaves the state as it was: no
  call of \<^verbatim>\<open>makeAST\<close> is recorded, so no parse is attempted. This holds whatever the
  module test answers and whatever aliases the registry holds.
\<close>

theorem loader_prefilter_bypass:
  assumes keys: "map fst (registry st) = [''getServerSideProps'', ''getStaticProps'', ''getStaticPaths'']"
    and none: "\<not> str_includes userCode ''getServerSideProps''"
              "\<not> str_includes userCode ''getStaticProps''"
              "\<not> str_includes userCode ''getStaticPaths''"
  shows "fst (wrapDataFetchersLoader e st userCode) = userCode
         \<and> snd (wrapDataFetchersLoader e st userCode) = st
         \<and> parsed (snd (wrapDataFetchersLoader e st userCode)) = parsed st"
  using assms by (simp add: wrapDataFetchersLoader_def)

definition plain_page :: string where
  "plain_page = ''export default function Page() { return null }''"

theorem loader_prefilter_bypass_witness:
  "\<not> str_includes plain_page ''getServerSideProps''
   \<and> \<not> str_includes plain_page ''getStaticProps''
   \<and> \<not> str_includes plain_page ''getStaticPaths''
   \<and> wrapDataFetchersLoader rejecting_env initial_state plain_page = (plain_page, initial_state)
   \<and> parsed (snd (wrapDataFetchersLoader rejecting_env initial_state plain_page)) = []"
proof -
  have keys: "map fst (registry initial_state)
                = [''getServerSideProps'', ''getStaticProps'', ''getStaticPaths'']"
    by (simp add: initial_state_def DATA_FETCHING_FUNCTIONS_def)
  have none: "\<not> str_includes plain_page ''getServerSideProps''"
             "\<not> str_includes plain_page ''getStaticProps''"
             "\<not> str_includes plain_page ''getStaticPaths''"
    by (simp_all add: plain_page_def)
  have p0: "parsed initial_state = []" by (simp add: initial_state_def)
  show ?thesis
    using loader_prefilter_bypass[OF keys none, of rejecting_env] none p0
    by (simp add: prod_eq_iff)
qed

section \<open>Deleting the unused wrappers from the template\<close>

text \<open>
  \<open>kids t\<close> are the child nodes of \<open>t\<close>, and \<open>all_below A t\<close> says that \<open>A\<close> holds of every
  node below the root of \<open>t\<close>.
\<close>

definition kids :: "node \<Rightarrow> node list" where
  "kids t = map snd (subnodes t)"

definition all_below :: "(node \<Rightarrow> bool) \<Rightarrow> node \<Rightarrow> bool" where
  "all_below A t = (\<forall>pn \<in> set (descendants t). A (snd pn))"

lemma map_snd_elems: "map snd (elems ns) = ns"
  by (simp add: elems_def)

lemma kids_simps:
  "kids (Identifier x) = []"
  "kids Absent = []"
  "kids (ImportSpecifier l i) = (case l of None \<Rightarrow> [] | Some n \<Rightarrow> [n]) @ [i]"
  "kids (ExportSpecifier l e) = (case l of None \<Rightarrow> [] | Some n \<Rightarrow> [n]) @ [e]"
  "kids (Property ky v sh) = [ky, v]"
  "kids (MemberExpression ob pr c) = [ob, pr]"
  "kids (VariableDeclarator i init) = i # (case init of None \<Rightarrow> [] | Some n \<Rightarrow> [n])"
  "kids (ObjectPattern ps) = ps"
  "kids (ObjectExpression ps) = ps"
  "kids (VariableDeclaration ds) = ds"
  "kids (Other kd cs) = cs"
  by (simp_all add: kids_def map_snd_elems opt_field_def split: option.splits)

lemma size_kids: "c \<in> set (kids t) \<Longrightarrow> size c < size t"
  by (auto simp: kids_def dest: size_subnodes)

lemma kids_induct [case_names step]:
  assumes "\<And>t. (\<And>c. c \<in> set (kids t) \<Longrightarrow> A c) \<Longrightarrow> A t"
  shows "A t"
proof (induction t rule: measure_induct_rule[of size])
  case (less t)
  show ?case by (rule assms) (simp add: less size_kids)
qed

lemma all_below_iff: "all_below A t \<longleftrightarrow> (\<forall>c \<in> set (kids t). A c \<and> all_below A c)"
proof
  assume a: "all_below A t"
  show "\<forall>c \<in> set (kids t). A c \<and> all_below A c"
  proof
    fix c
    assume "c \<in> set (kids t)"
    then obtain s where sc: "(s, c) \<in> set (subnodes t)" by (auto simp: kids_def)
    then have "([s], c) \<in> set (descendants t)"
      unfolding in_descendants_Cons by blast
    with a have "A c" unfolding all_below_def by fastforce
    moreover have "A (snd pn)" if "pn \<in> set (descendants c)" for pn
    proof -
      from that have "(fst pn, snd pn) \<in> set (descendants c)" by simp
      with sc have "(s # fst pn, snd pn) \<in> set (descendants t)"
        unfolding in_descendants_Cons[of s "fst pn"] by blast
      with a show ?thesis unfolding all_below_def by fastforce
    qed
    ultimately show "A c \<and> all_below A c" by (simp add: all_below_def)
  qed
next
  assume k: "\<forall>c \<in> set (kids t). A c \<and> all_below A c"
  show "all_below A t"
    unfolding all_below_def
  proof
    fix pn
    assume m: "pn \<in> set (descendants t)"
    obtain p n where pn: "pn = (p, n)" by (cases pn)
    with m not_Nil_in_descendants[of n t] obtain s q where p: "p = s # q" by (cases p) auto
    with m pn obtain c where c: "(s, c) \<in> set (subnodes t)"
      and alt: "(q = [] \<and> n = c) \<or> (q, n) \<in> set (descendants c)"
      by (auto simp: in_descendants_Cons)
    from c have "c \<in> set (kids t)" by (force simp: kids_def)
    with k have "A c" "all_below A c" by blast+
    with alt have "A n" unfolding all_below_def by fastforce
    with pn show "A (snd pn)" by simp
  qed
qed

lemma ast_find_empty_iff: "ast_find F t = [] \<longleftrightarrow> all_below (\<lambda>n. \<not> F n) t"
  by (auto simp: ast_find_def all_below_def filter_empty_conv)

text \<open>
  \<open>without P t\<close> is the tree \<open>t\<close> without the nodes below its root that pass the filter
  \<open>P\<close>. It is what \<open>remove\<close> returns on the collection that the query with the filter
  \<open>P\<close> found in \<open>t\<close> (\<open>remove_ast_find\<close>).
\<close>

fun without :: "(node \<Rightarrow> bool) \<Rightarrow> node \<Rightarrow> node" where
  "without P (Identifier x) = Identifier x"
| "without P (ImportSpecifier l i) =
     ImportSpecifier (case l of None \<Rightarrow> None | Some n \<Rightarrow> if P n then None else Some (without P n))
                     (if P i then Absent else without P i)"
| "without P (Property k v sh) =
     Property (if P k then Absent else without P k) (if P v then Absent else without P v) sh"
| "without P (ObjectPattern ps) =
     ObjectPattern (concat (map (\<lambda>n. if P n then [] else [without P n]) ps))"
| "without P (ObjectExpression ps) =
     ObjectExpression (concat (map (\<lambda>n. if P n then [] else [without P n]) ps))"
| "without P (MemberExpression ob pr c) =
     MemberExpression (if P ob then Absent else without P ob) (if P pr then Absent else without P pr) c"
| "without P (ExportSpecifier l e) =
     ExportSpecifier (case l of None \<Rightarrow> None | Some n \<Rightarrow> if P n then None else Some (without P n))
                     (if P e then Absent else without P e)"
| "without P (VariableDeclarator i init) =
     VariableDeclarator (if P i then Absent else without P i)
       (case init of None \<Rightarrow> None | Some n \<Rightarrow> if P n then None else Some (without P n))"
| "without P (VariableDeclaration ds) =
     VariableDeclaration (concat (map (\<lambda>n. if P n then [] else [without P n]) ds))"
| "without P (Other k cs) = Other k (concat (map (\<lambda>n. if P n then [] else [without P n]) cs))"
| "without P Absent = Absent"

lemma concat_map_elems:
  assumes "\<And>s c. (s, c) \<in> set (elems cs) \<Longrightarrow> f (s, c) = g c"
  shows "concat (map f (elems cs)) = concat (map g cs)"
proof -
  have "map f (elems cs) = map (g \<circ> snd) (elems cs)"
    using assms by (intro map_cong) auto
  also have "\<dots> = map g (map snd (elems cs))" by simp
  finally show ?thesis by (simp add: map_snd_elems)
qed

lemma prune_at_without:
  assumes "\<And>p. p \<noteq> [] \<Longrightarrow> M p \<longleftrightarrow> (\<exists>c. get t p = Some c \<and> P c)"
  shows "prune_at M t = without P t"
  using assms
proof (induction t arbitrary: M rule: kids_induct)
  case (step t)
  have sub: "M [s] = P c \<and> prune_at (\<lambda>p. M (s # p)) c = without P c" if ch: "child t s = Some c" for s c
  proof
    show "M [s] = P c" using step.prems[of "[s]"] ch by simp
    have "c \<in> set (kids t)"
      using ch by (force simp: kids_def in_subnodes_iff[symmetric])
    moreover have "(\<lambda>p. M (s # p)) p \<longleftrightarrow> (\<exists>d. get c p = Some d \<and> P d)" if "p \<noteq> []" for p
      using step.prems[of "s # p"] ch by simp
    ultimately show "prune_at (\<lambda>p. M (s # p)) c = without P c" by (rule step.IH)
  qed
  have arr: "concat (map (\<lambda>(s, c). if M [s] then [] else [prune_at (\<lambda>p. M (s # p)) c]) (elems cs))
             = concat (map (\<lambda>n. if P n then [] else [without P n]) cs)"
    if "subnodes t = elems cs" for cs
  proof (rule concat_map_elems)
    fix s c
    assume "(s, c) \<in> set (elems cs)"
    then have "child t s = Some c" using that by (simp add: in_subnodes_iff[symmetric])
    from sub[OF this]
    show "(case (s, c) of (s, c) \<Rightarrow> if M [s] then [] else [prune_at (\<lambda>p. M (s # p)) c])
          = (if P c then [] else [without P c])" by simp
  qed
  show ?case
  proof (cases t)
    case (Identifier x)
    then show ?thesis by simp
  next
    case (ImportSpecifier l i)
    then show ?thesis
      using sub[of Imported i] sub[of Local] by (cases l) (simp_all add: child_simps)
  next
    case (Property k v sh)
    then show ?thesis using sub[of Key k] sub[of Val v] by (simp add: child_simps)
  next
    case (ObjectPattern ps)
    then show ?thesis using arr[of ps] by simp
  next
    case (ObjectExpression ps)
    then show ?thesis using arr[of ps] by simp
  next
    case (MemberExpression ob pr c)
    then show ?thesis using sub[of Object ob] sub[of PropertyF pr] by (simp add: child_simps)
  next
    case (ExportSpecifier l e)
    then show ?thesis
      using sub[of Exported e] sub[of Local] by (cases l) (simp_all add: child_simps)
  next
    case (VariableDeclarator i init)
    then show ?thesis
      using sub[of Id i] sub[of Init] by (cases init) (simp_all add: child_simps)
  next
    case (VariableDeclaration ds)
    then show ?thesis using arr[of ds] by simp
  next
    case (Other k cs)
    then show ?thesis using arr[of cs] by simp
  next
    case Absent
    then show ?thesis by simp
  qed
qed

lemma remove_ast_find: "remove (ast_find P t) t = without P t"
  unfolding remove_def
proof (rule prune_at_without)
  fix p :: path
  assume "p \<noteq> []"
  show "p \<in> set (ast_find P t) \<longleftrightarrow> (\<exists>c. get t p = Some c \<and> P c)"
  proof
    assume "p \<in> set (ast_find P t)"
    then obtain c where "(p, c) \<in> set (descendants t)" "P c"
      unfolding ast_find_def by auto
    then show "\<exists>c. get t p = Some c \<and> P c" by (auto simp: in_descendants_iff)
  next
    assume "\<exists>c. get t p = Some c \<and> P c"
    then obtain c where c: "get t p = Some c" "P c" by blast
    with \<open>p \<noteq> []\<close> have "(p, c) \<in> set (descendants t)" by (simp add: in_descendants_iff)
    with c(2) show "p \<in> set (ast_find P t)" unfolding ast_find_def by force
  qed
qed

lemma remove_queries:
  "remove (findExports t name) t = without (exportFilter name) t"
  "remove (findDeclarations t name) t = without (declarationFilter name) t"
  by (simp_all add: findExports_def findDeclarations_def remove_ast_find)

lemma kind_without: "kind (without P n) = kind n"
  by (cases n) (simp_all add: kind_def)

lemma name_of_without: "name_of (without P n) = name_of n"
  by (cases n) (simp_all add: name_of_def)

lemma kids_without:
  "c' \<in> set (kids (without P t)) \<Longrightarrow> c' = Absent \<or> (\<exists>c \<in> set (kids t). \<not> P c \<and> c' = without P c)"
  by (cases t) (auto simp: kids_simps split: option.splits if_splits)

lemma kids_Absent: "kids Absent = []"
  by (simp add: kids_simps)

lemma all_below_Absent: "all_below A Absent"
  by (subst all_below_iff) (simp add: kids_simps)

lemma without_none_below:
  assumes nonew: "\<And>n. ok n \<Longrightarrow> \<not> F n \<Longrightarrow> \<not> F (without P n)"
    and absent: "\<not> F Absent"
    and typed: "all_below ok t"
    and base: "all_below (\<lambda>n. F n \<longrightarrow> P n) t"
  shows "all_below (\<lambda>n. \<not> F n) (without P t)"
  using typed base
proof (induction t rule: kids_induct)
  case (step t)
  show ?case
  proof (subst all_below_iff, intro ballI)
    fix c'
    assume "c' \<in> set (kids (without P t))"
    then consider "c' = Absent" | c where "c \<in> set (kids t)" "\<not> P c" "c' = without P c"
      using kids_without by blast
    then show "\<not> F c' \<and> all_below (\<lambda>n. \<not> F n) c'"
    proof cases
      case 1
      then show ?thesis by (simp add: absent all_below_Absent)
    next
      case 2
      from step.prems(1) 2(1) have okc: "ok c" "all_below ok c"
        by (subst (asm) all_below_iff, blast)+
      from step.prems(2) 2(1) have bc: "F c \<longrightarrow> P c" "all_below (\<lambda>n. F n \<longrightarrow> P n) c"
        by (subst (asm) all_below_iff, blast)+
      from bc(1) 2(2) have "\<not> F c" by blast
      then have "\<not> F c'" using nonew[OF okc(1)] 2(3) by simp
      moreover have "all_below (\<lambda>n. \<not> F n) c'"
        using step.IH[OF 2(1) okc(2) bc(2)] 2(3) by simp
      ultimately show ?thesis by simp
    qed
  qed
qed

lemma without_keeps:
  assumes keep: "\<And>n. ok n \<Longrightarrow> ok (without P n)" and absent: "ok Absent"
    and typed: "all_below ok t"
  shows "all_below ok (without P t)"
  using typed
proof (induction t rule: kids_induct)
  case (step t)
  show ?case
  proof (subst all_below_iff, intro ballI)
    fix c'
    assume "c' \<in> set (kids (without P t))"
    then consider "c' = Absent" | c where "c \<in> set (kids t)" "\<not> P c" "c' = without P c"
      using kids_without by blast
    then show "ok c' \<and> all_below ok c'"
    proof cases
      case 1
      then show ?thesis by (simp add: absent all_below_Absent)
    next
      case 2
      from step.prems 2(1) have okc: "ok c" "all_below ok c"
        by (subst (asm) all_below_iff, blast)+
      show ?thesis using keep[OF okc(1)] step.IH[OF 2(1) okc(2)] 2(3) by simp
    qed
  qed
qed


lemma all_below_mono:
  assumes "all_below A t" "\<And>n. A n \<Longrightarrow> B n"
  shows "all_below B t"
  using assms unfolding all_below_def by blast

text \<open>
  \<open>deletes_plainly t\<close>: no export specifier and no variable declaration of \<open>t\<close> is the
  child of a variable declaration, of an expression statement or of an if statement. On
  such a tree the deletion of nodes of these two kinds is followed by no clean-up.
\<close>

definition deletes_plainly :: "ast \<Rightarrow> bool" where
  "deletes_plainly t = (plain_parent t \<and> all_below plain_parent t)"

definition template_query :: "(node \<Rightarrow> bool) \<Rightarrow> bool" where
  "template_query P = (\<forall>n. P n \<longrightarrow> template_kind n)"

lemma template_query_filters:
  "template_query (exportFilter k)" "template_query (declarationFilter k)"
  by (auto simp: template_query_def template_kind_def exportFilter_def declarationFilter_def
      split: node.splits)

lemma template_kind_without: "template_kind (without P n) = template_kind n"
  by (cases n) (simp_all add: template_kind_def)

lemma name_of_Some: "name_of n = Some x \<longleftrightarrow> n = Identifier x"
  by (cases n) (auto simp: name_of_def)

lemma not_template_Identifier: "template_query P \<Longrightarrow> \<not> P (Identifier x)"
  by (auto simp: template_query_def template_kind_def)

lemma not_template_Declarator: "template_query P \<Longrightarrow> \<not> P (VariableDeclarator i init)"
  by (auto simp: template_query_def template_kind_def)

lemma exportFilter_no_new:
  assumes "\<not> exportFilter k n"
  shows "\<not> exportFilter k (without P n)"
proof (cases n)
  case (ExportSpecifier l e)
  have "name_of (if P e then Absent else without P e) \<noteq> Some k"
    using assms ExportSpecifier by (simp add: exportFilter_def name_of_without) (simp add: name_of_def)
  then show ?thesis using ExportSpecifier by (simp add: exportFilter_def)
qed (simp_all add: exportFilter_def)

lemma exportFilter_stable:
  assumes "template_query P" "exportFilter k n"
  shows "exportFilter k (without P n)"
proof -
  from assms(2) obtain l where n: "n = ExportSpecifier l (Identifier k)"
    by (cases n) (auto simp: exportFilter_def name_of_Some)
  show ?thesis
    unfolding n using not_template_Identifier[OF assms(1)]
    by (simp add: exportFilter_def name_of_def)
qed

lemma without_untouched_list:
  assumes "\<forall>d \<in> set ds. \<not> P d"
  shows "concat (map (\<lambda>n. if P n then [] else [without P n]) ds) = map (without P) ds"
  using assms by (induction ds) simp_all

lemma declarationFilter_single:
  "declarationFilter k n \<longleftrightarrow> (\<exists>init. n = VariableDeclaration [VariableDeclarator (Identifier k) init])"
proof
  assume d: "declarationFilter k n"
  then obtain ds where n: "n = VariableDeclaration ds"
    by (cases n) (simp_all add: declarationFilter_def)
  with d have len: "length ds = 1" by (simp add: declarationFilter_def)
  then obtain d0 where ds: "ds = [d0]" by (cases ds) auto
  with d n obtain i init where d0: "d0 = VariableDeclarator i init" and "name_of i = Some k"
    by (cases d0) (simp_all add: declarationFilter_def)
  then show "\<exists>init. n = VariableDeclaration [VariableDeclarator (Identifier k) init]"
    using n ds by (simp add: name_of_Some)
next
  assume "\<exists>init. n = VariableDeclaration [VariableDeclarator (Identifier k) init]"
  then show "declarationFilter k n"
    by (auto simp: declarationFilter_def name_of_def)
qed

lemma declarationFilter_stable:
  assumes "template_query P" "declarationFilter k n"
  shows "declarationFilter k (without P n)"
proof -
  from assms(2) obtain init where n: "n = VariableDeclaration [VariableDeclarator (Identifier k) init]"
    unfolding declarationFilter_single by blast
  show ?thesis
    unfolding n declarationFilter_single
    using not_template_Identifier[OF assms(1)] not_template_Declarator[OF assms(1)]
    by simp
qed

lemma declarationFilter_no_new:
  assumes q: "template_query P" and ok: "plain_parent n" and no: "\<not> declarationFilter k n"
  shows "\<not> declarationFilter k (without P n)"
proof
  assume yes: "declarationFilter k (without P n)"
  then obtain init' where r: "without P n = VariableDeclaration [VariableDeclarator (Identifier k) init']"
    unfolding declarationFilter_single by blast
  then have "kind n = KVariableDeclaration"
    using kind_without[of P n] by (simp add: kind_def)
  then obtain ds where n: "n = VariableDeclaration ds"
    by (cases n) (simp_all add: kind_def)
  from ok n q have "\<forall>d \<in> set ds. \<not> P d"
    by (auto simp: plain_parent_def list_all_iff template_query_def)
  then have "without P n = VariableDeclaration (map (without P) ds)"
    by (simp add: n without_untouched_list)
  with r have m: "map (without P) ds = [VariableDeclarator (Identifier k) init']" by simp
  then obtain d0 where ds: "ds = [d0]" and d0: "without P d0 = VariableDeclarator (Identifier k) init'"
    by (cases ds) auto
  from d0 have "kind d0 = KVariableDeclarator"
    using kind_without[of P d0] by (simp add: kind_def)
  then obtain i init where d: "d0 = VariableDeclarator i init"
    by (cases d0) (simp_all add: kind_def)
  from d0 d have "(if P i then Absent else without P i) = Identifier k" by simp
  then have "name_of i = Some k"
    using name_of_without[of P i] by (auto simp: name_of_def split: if_splits)
  then have "declarationFilter k n"
    unfolding declarationFilter_single n ds d by (simp add: name_of_Some)
  with no show False by simp
qed

lemma plain_parent_without:
  assumes "plain_parent n"
  shows "plain_parent (without P n)"
  using assms
  by (cases n) (auto simp: plain_parent_def list_all_iff template_kind_without split: if_splits)

lemma plain_parent_Absent: "plain_parent Absent"
  by (simp add: plain_parent_def)

lemma deletes_plainly_without: "deletes_plainly t \<Longrightarrow> deletes_plainly (without P t)"
  unfolding deletes_plainly_def
  by (auto intro: without_keeps simp: plain_parent_without plain_parent_Absent)

lemma no_exports_after_without:
  assumes "all_below (\<lambda>n. exportFilter k n \<longrightarrow> P n) t"
  shows "all_below (\<lambda>n. \<not> exportFilter k n) (without P t)"
proof (rule without_none_below[where ok = "\<lambda>n. True"])
  show "all_below (\<lambda>n. True) t" by (simp add: all_below_def)
  show "\<not> exportFilter k Absent" by (simp add: exportFilter_def)
  show "all_below (\<lambda>n. exportFilter k n \<longrightarrow> P n) t" by (rule assms)
  show "\<not> exportFilter k (without P n)" if "\<not> exportFilter k n" for n
    using that by (rule exportFilter_no_new)
qed

lemma no_declarations_after_without:
  assumes "template_query P" "deletes_plainly t"
    and "all_below (\<lambda>n. declarationFilter k n \<longrightarrow> P n) t"
  shows "all_below (\<lambda>n. \<not> declarationFilter k n) (without P t)"
proof (rule without_none_below[where ok = plain_parent])
  show "all_below plain_parent t" using assms(2) by (simp add: deletes_plainly_def)
  show "\<not> declarationFilter k Absent" by (simp add: declarationFilter_def)
  show "all_below (\<lambda>n. declarationFilter k n \<longrightarrow> P n) t" by (rule assms(3))
  show "\<not> declarationFilter k (without P n)" if "plain_parent n" "\<not> declarationFilter k n" for n
    using assms(1) that by (rule declarationFilter_no_new)
qed


text \<open>
  The template contract of section 6 of the specification, for one placeholder:
  \<open>covered Q x t\<close> says that every identifier named \<open>x\<close> below the root of \<open>t\<close> lies inside
  a node that satisfies \<open>Q\<close>. \<open>tracked_wrapper names\<close> holds of the export specifiers and
  the single-binding declarations of the tracked names, which the per-name pass deletes:
  \<open>delete_wrapper\<close> is the else branch of the loop of \<^verbatim>\<open>wrapFunctions\<close>.
\<close>

function covered :: "(node \<Rightarrow> bool) \<Rightarrow> string \<Rightarrow> node \<Rightarrow> bool" where
  "covered Q x t = (\<forall>c \<in> set (kids t). Q c \<or> (name_of c \<noteq> Some x \<and> covered Q x c))"
  by pat_completeness auto
termination
  by (relation "measure (\<lambda>(Q, x, t). size t)") (auto dest: size_kids)

declare covered.simps [simp del]

definition tracked_wrapper :: "string list \<Rightarrow> node \<Rightarrow> bool" where
  "tracked_wrapper names n = list_ex (\<lambda>k. exportFilter k n \<or> declarationFilter k n) names"

lemma covered_Absent: "covered Q x Absent"
  by (subst covered.simps) (simp add: kids_simps)

lemma covered_without:
  assumes stable: "\<And>n. Q n \<Longrightarrow> \<not> P n \<Longrightarrow> Q (without P n)"
    and cov: "covered Q x t"
  shows "covered Q x (without P t)"
  using cov
proof (induction t rule: kids_induct)
  case (step t)
  show ?case
  proof (subst covered.simps, intro ballI)
    fix c'
    assume "c' \<in> set (kids (without P t))"
    then consider "c' = Absent" | c where "c \<in> set (kids t)" "\<not> P c" "c' = without P c"
      using kids_without by blast
    then show "Q c' \<or> (name_of c' \<noteq> Some x \<and> covered Q x c')"
    proof cases
      case 1
      then show ?thesis by (simp add: covered_Absent name_of_def)
    next
      case 2
      from step.prems 2(1) have "Q c \<or> (name_of c \<noteq> Some x \<and> covered Q x c)"
        by (subst (asm) covered.simps) blast
      then show ?thesis
      proof
        assume "Q c"
        then show ?thesis using stable 2(2,3) by blast
      next
        assume "name_of c \<noteq> Some x \<and> covered Q x c"
        then show ?thesis using step.IH[OF 2(1)] 2(3) by (simp add: name_of_without)
      qed
    qed
  qed
qed

lemma covered_without_wrappers:
  assumes "covered Q x t" "all_below (\<lambda>n. \<not> Q n) t"
  shows "all_below (\<lambda>n. name_of n \<noteq> Some x) t"
  using assms
proof (induction t rule: kids_induct)
  case (step t)
  show ?case
  proof (subst all_below_iff, intro ballI)
    fix c
    assume c: "c \<in> set (kids t)"
    from step.prems(2) c have nq: "\<not> Q c" "all_below (\<lambda>n. \<not> Q n) c"
      by (subst (asm) all_below_iff, blast)+
    from step.prems(1) c have "Q c \<or> (name_of c \<noteq> Some x \<and> covered Q x c)"
      by (subst (asm) covered.simps) blast
    with nq(1) have "name_of c \<noteq> Some x" "covered Q x c" by blast+
    then show "name_of c \<noteq> Some x \<and> all_below (\<lambda>n. name_of n \<noteq> Some x) c"
      using step.IH[OF c _ nq(2)] by simp
  qed
qed

lemma findIdentifiers_empty_all_below:
  "findIdentifiers t x = [] \<longleftrightarrow> all_below (\<lambda>n. name_of n \<noteq> Some x) t"
proof -
  have "identifierFilter x n \<longleftrightarrow> name_of n = Some x" for n
    by (cases n) (auto simp: identifierFilter_def name_of_def)
  then show ?thesis by (simp add: findIdentifiers_def ast_find_empty_iff)
qed

definition delete_wrapper :: "string \<Rightarrow> ast \<Rightarrow> ast" where
  "delete_wrapper functionName templateAST =
     (let templateAST1 = remove (findExports templateAST functionName) templateAST
      in remove (findDeclarations templateAST1 functionName) templateAST1)"

lemma delete_wrapper_without:
  "delete_wrapper k t = without (declarationFilter k) (without (exportFilter k) t)"
  by (simp add: delete_wrapper_def remove_queries)

lemma tracked_wrapper_stable:
  assumes "template_query P" "tracked_wrapper names n"
  shows "tracked_wrapper names (without P n)"
  using assms(2) exportFilter_stable[OF assms(1)] declarationFilter_stable[OF assms(1)]
  unfolding tracked_wrapper_def list_ex_iff by blast

lemma delete_wrapper_plainly: "deletes_plainly t \<Longrightarrow> deletes_plainly (delete_wrapper k t)"
  by (simp add: delete_wrapper_without deletes_plainly_without)

lemma delete_wrapper_covered:
  "covered (tracked_wrapper names) x t \<Longrightarrow> covered (tracked_wrapper names) x (delete_wrapper k t)"
  unfolding delete_wrapper_without
  by (intro covered_without tracked_wrapper_stable template_query_filters)

lemma delete_wrapper_keeps_no_exports:
  assumes "all_below (\<lambda>n. \<not> exportFilter j n) t"
  shows "all_below (\<lambda>n. \<not> exportFilter j n) (delete_wrapper k t)"
proof -
  have "all_below (\<lambda>n. exportFilter j n \<longrightarrow> exportFilter k n) t"
    by (rule all_below_mono[OF assms]) simp
  then have "all_below (\<lambda>n. \<not> exportFilter j n) (without (exportFilter k) t)"
    by (rule no_exports_after_without)
  then have "all_below (\<lambda>n. exportFilter j n \<longrightarrow> declarationFilter k n) (without (exportFilter k) t)"
    by (rule all_below_mono) simp
  then show ?thesis unfolding delete_wrapper_without by (rule no_exports_after_without)
qed

lemma delete_wrapper_keeps_no_declarations:
  assumes "deletes_plainly t" "all_below (\<lambda>n. \<not> declarationFilter j n) t"
  shows "all_below (\<lambda>n. \<not> declarationFilter j n) (delete_wrapper k t)"
proof -
  have "all_below (\<lambda>n. \<not> declarationFilter j n) (without (exportFilter k) t)"
    using template_query_filters(1) assms(1)
    by (rule no_declarations_after_without) (rule all_below_mono[OF assms(2)], simp)
  then have "all_below (\<lambda>n. declarationFilter j n \<longrightarrow> declarationFilter k n) (without (exportFilter k) t)"
    by (rule all_below_mono) simp
  then show ?thesis
    unfolding delete_wrapper_without
    using template_query_filters(2) deletes_plainly_without[OF assms(1)]
    by (intro no_declarations_after_without)
qed

lemma delete_wrapper_no_exports: "all_below (\<lambda>n. \<not> exportFilter k n) (delete_wrapper k t)"
proof -
  have "all_below (\<lambda>n. \<not> exportFilter k n) (without (exportFilter k) t)"
    by (rule no_exports_after_without) (simp add: all_below_def)
  then have "all_below (\<lambda>n. exportFilter k n \<longrightarrow> declarationFilter k n) (without (exportFilter k) t)"
    by (rule all_below_mono) simp
  then show ?thesis unfolding delete_wrapper_without by (rule no_exports_after_without)
qed

lemma delete_wrapper_no_declarations:
  assumes "deletes_plainly t"
  shows "all_below (\<lambda>n. \<not> declarationFilter k n) (delete_wrapper k t)"
  unfolding delete_wrapper_without
  using template_query_filters(2) deletes_plainly_without[OF assms]
  by (rule no_declarations_after_without) (simp add: all_below_def)

lemma fold_delete_wrapper:
  assumes "deletes_plainly t"
  shows "deletes_plainly (fold delete_wrapper ns t)"
    and "covered (tracked_wrapper names) x t \<Longrightarrow> covered (tracked_wrapper names) x (fold delete_wrapper ns t)"
    and "all_below (\<lambda>n. \<not> exportFilter j n) t \<Longrightarrow> all_below (\<lambda>n. \<not> exportFilter j n) (fold delete_wrapper ns t)"
    and "all_below (\<lambda>n. \<not> declarationFilter j n) t
         \<Longrightarrow> all_below (\<lambda>n. \<not> declarationFilter j n) (fold delete_wrapper ns t)"
  using assms
  by (induction ns arbitrary: t)
     (simp_all add: delete_wrapper_plainly delete_wrapper_covered delete_wrapper_keeps_no_exports
        delete_wrapper_keeps_no_declarations)

lemma fold_delete_wrapper_clears:
  assumes "deletes_plainly t" "k \<in> set ns"
  shows "all_below (\<lambda>n. \<not> exportFilter k n) (fold delete_wrapper ns t)"
    and "all_below (\<lambda>n. \<not> declarationFilter k n) (fold delete_wrapper ns t)"
  using assms
proof (induction ns arbitrary: t)
  case Nil
  { case 1 then show ?case by simp }
  { case 2 then show ?case by simp }
next
  case (Cons a ns)
  { case 1
    show ?case
    proof (cases "k = a")
      case True
      show ?thesis
        using fold_delete_wrapper(3)[OF delete_wrapper_plainly[OF 1(1)] delete_wrapper_no_exports]
        by (simp add: True)
    next
      case False
      with 1(2) have "k \<in> set ns" by simp
      then show ?thesis using Cons.IH(1)[OF delete_wrapper_plainly[OF 1(1)]] by simp
    qed }
  { case 2
    show ?case
    proof (cases "k = a")
      case True
      show ?thesis
        using fold_delete_wrapper(4)[OF delete_wrapper_plainly[OF 2(1)]
                delete_wrapper_no_declarations[OF 2(1)]]
        by (simp add: True)
    next
      case False
      with 2(2) have "k \<in> set ns" by simp
      then show ?thesis using Cons.IH(2)[OF delete_wrapper_plainly[OF 2(1)]] by simp
    qed }
qed

lemma perName_absent:
  assumes "findIdentifiers u n = []"
  shows "perName n (u, t, r) = (u, delete_wrapper n t, r)"
  using assms by (simp add: perName_def delete_wrapper_def Let_def)

lemma fold_perName_absent:
  assumes "\<forall>n \<in> set ns. findIdentifiers u n = []"
  shows "fold perName ns (u, t, r) = (u, fold delete_wrapper ns t, r)"
  using assms
  by (induction ns arbitrary: t) (simp_all add: perName_absent)

text \<open>
  The declarations that introduce another number of bindings than one:
  \<open>multi_declarations W t\<close> lists, in the order of the tree, the binding names of every such
  declaration below the root of \<open>t\<close> that does not lie inside a node satisfying \<open>W\<close>.
\<close>

definition is_multi :: "node \<Rightarrow> bool" where
  "is_multi n = (case n of VariableDeclaration ds \<Rightarrow> length ds \<noteq> 1 | _ \<Rightarrow> False)"

definition bindings :: "node \<Rightarrow> string option list" where
  "bindings n =
     (case n of
        VariableDeclaration ds \<Rightarrow>
          map (\<lambda>d. case d of VariableDeclarator i init \<Rightarrow> name_of i | _ \<Rightarrow> None) ds
      | _ \<Rightarrow> [])"

function multi_declarations :: "(node \<Rightarrow> bool) \<Rightarrow> node \<Rightarrow> string option list list" where
  "multi_declarations W t =
     concat (map (\<lambda>c. if W c then []
                       else (if is_multi c then [bindings c] else []) @ multi_declarations W c)
                 (kids t))"
  by pat_completeness auto
termination
  by (relation "measure (\<lambda>(W, t). size t)") (auto dest: size_kids)

declare multi_declarations.simps [simp del]

definition multi_entry :: "(node \<Rightarrow> bool) \<Rightarrow> node \<Rightarrow> string option list list" where
  "multi_entry W c =
     (if W c then [] else (if is_multi c then [bindings c] else []) @ multi_declarations W c)"

lemma multi_declarations_kids: "multi_declarations W t = concat (map (multi_entry W) (kids t))"
  by (subst multi_declarations.simps) (simp add: multi_entry_def cong: map_cong)

lemma multi_entry_Absent: "\<not> W Absent \<Longrightarrow> multi_entry W Absent = []"
  by (simp add: multi_entry_def is_multi_def multi_declarations_kids kids_simps)

lemma is_multi_without:
  assumes "template_query P" "plain_parent n"
  shows "is_multi (without P n) = is_multi n"
proof (cases n)
  case (VariableDeclaration ds)
  from assms VariableDeclaration have "\<forall>d \<in> set ds. \<not> P d"
    by (auto simp: plain_parent_def list_all_iff template_query_def)
  then show ?thesis
    by (simp add: VariableDeclaration is_multi_def without_untouched_list)
qed (simp_all add: is_multi_def)

lemma binding_without:
  assumes "template_query P"
  shows "(case without P d of VariableDeclarator i init \<Rightarrow> name_of i | _ \<Rightarrow> None)
         = (case d of VariableDeclarator i init \<Rightarrow> name_of i | _ \<Rightarrow> None)"
proof (cases d)
  case (VariableDeclarator i init)
  have "name_of (if P i then Absent else without P i) = name_of i"
  proof (cases "P i")
    case True
    with assms have "template_kind i" by (simp add: template_query_def)
    then have "name_of i = None" by (cases i) (simp_all add: template_kind_def name_of_def)
    with True show ?thesis by (simp add: name_of_def)
  next
    case False
    then show ?thesis by (simp add: name_of_without)
  qed
  then show ?thesis by (simp add: VariableDeclarator)
qed simp_all

lemma bindings_without:
  assumes "template_query P" "plain_parent n"
  shows "bindings (without P n) = bindings n"
proof (cases n)
  case (VariableDeclaration ds)
  from assms VariableDeclaration have "\<forall>d \<in> set ds. \<not> P d"
    by (auto simp: plain_parent_def list_all_iff template_query_def)
  then show ?thesis
    by (simp add: VariableDeclaration bindings_def without_untouched_list binding_without[OF assms(1)])
qed (simp_all add: bindings_def)

lemma multi_concat_without:
  assumes "\<And>c. c \<in> set cs \<Longrightarrow> P c \<Longrightarrow> multi_entry W c = []"
    and "\<And>c. c \<in> set cs \<Longrightarrow> \<not> P c \<Longrightarrow> multi_entry W (without P c) = multi_entry W c"
  shows "concat (map (multi_entry W) (concat (map (\<lambda>n. if P n then [] else [without P n]) cs)))
         = concat (map (multi_entry W) cs)"
  using assms by (induction cs) simp_all

lemma multi_declarations_without:
  assumes q: "template_query P"
    and sub: "\<And>n. P n \<Longrightarrow> W n"
    and same: "\<And>n. plain_parent n \<Longrightarrow> \<not> P n \<Longrightarrow> W (without P n) = W n"
    and absent: "\<not> W Absent"
    and plain: "all_below plain_parent t"
  shows "multi_declarations W (without P t) = multi_declarations W t"
  using plain
proof (induction t rule: kids_induct)
  case (step t)
  have del: "multi_entry W c = []" if "P c" for c
    using sub[OF that] by (simp add: multi_entry_def)
  have keep: "multi_entry W (without P c) = multi_entry W c" if c: "c \<in> set (kids t)" "\<not> P c" for c
  proof -
    from step.prems c(1) have ok: "plain_parent c" "all_below plain_parent c"
      by (subst (asm) all_below_iff, blast)+
    show ?thesis
      unfolding multi_entry_def
      using same[OF ok(1) c(2)] is_multi_without[OF q ok(1)] bindings_without[OF q ok(1)]
        step.IH[OF c(1) ok(2)]
      by simp
  qed
  have field: "multi_entry W (if P c then Absent else without P c) = multi_entry W c"
    if "c \<in> set (kids t)" for c
    using del[of c] keep[OF that] by (simp add: multi_entry_Absent[of W, OF absent])
  have opt: "concat (map (multi_entry W)
               (case (case l of None \<Rightarrow> None | Some n \<Rightarrow> if P n then None else Some (without P n)) of
                  None \<Rightarrow> [] | Some n \<Rightarrow> [n]))
             = concat (map (multi_entry W) (case l of None \<Rightarrow> [] | Some n \<Rightarrow> [n]))"
    if "\<And>n. l = Some n \<Longrightarrow> n \<in> set (kids t)" for l
    using that del keep by (cases l) auto
  have arr: "concat (map (multi_entry W) (concat (map (\<lambda>n. if P n then [] else [without P n]) cs)))
             = concat (map (multi_entry W) cs)" if "kids t = cs" for cs
    using that del keep by (intro multi_concat_without) auto
  show ?case
    unfolding multi_declarations_kids[of W "without P t"] multi_declarations_kids[of W t]
  proof (cases t)
    case (Identifier x)
    then show "concat (map (multi_entry W) (kids (without P t))) = concat (map (multi_entry W) (kids t))"
      by simp
  next
    case (ImportSpecifier l i)
    then show "concat (map (multi_entry W) (kids (without P t))) = concat (map (multi_entry W) (kids t))"
      using field[of i] opt[of l] by (simp add: kids_simps)
  next
    case (Property k v sh)
    then show "concat (map (multi_entry W) (kids (without P t))) = concat (map (multi_entry W) (kids t))"
      using field[of k] field[of v] by (simp add: kids_simps)
  next
    case (ObjectPattern ps)
    then show "concat (map (multi_entry W) (kids (without P t))) = concat (map (multi_entry W) (kids t))"
      using arr[of ps] by (simp add: kids_simps)
  next
    case (ObjectExpression ps)
    then show "concat (map (multi_entry W) (kids (without P t))) = concat (map (multi_entry W) (kids t))"
      using arr[of ps] by (simp add: kids_simps)
  next
    case (MemberExpression ob pr c)
    then show "concat (map (multi_entry W) (kids (without P t))) = concat (map (multi_entry W) (kids t))"
      using field[of ob] field[of pr] by (simp add: kids_simps)
  next
    case (ExportSpecifier l e)
    then show "concat (map (multi_entry W) (kids (without P t))) = concat (map (multi_entry W) (kids t))"
      using field[of e] opt[of l] by (simp add: kids_simps)
  next
    case (VariableDeclarator i init)
    then show "concat (map (multi_entry W) (kids (without P t))) = concat (map (multi_entry W) (kids t))"
      using field[of i] opt[of init] by (simp add: kids_simps)
  next
    case (VariableDeclaration ds)
    then show "concat (map (multi_entry W) (kids (without P t))) = concat (map (multi_entry W) (kids t))"
      using arr[of ds] by (simp add: kids_simps)
  next
    case (Other k cs)
    then show "concat (map (multi_entry W) (kids (without P t))) = concat (map (multi_entry W) (kids t))"
      using arr[of cs] by (simp add: kids_simps)
  next
    case Absent
    then show "concat (map (multi_entry W) (kids (without P t))) = concat (map (multi_entry W) (kids t))"
      by simp
  qed
qed

lemma tracked_wrapper_same:
  assumes "template_query P" "plain_parent n" "\<not> P n"
  shows "tracked_wrapper names (without P n) = tracked_wrapper names n"
proof -
  have "exportFilter k (without P n) = exportFilter k n" for k
    using exportFilter_no_new[of k n P] exportFilter_stable[OF assms(1), of k n] by blast
  moreover have "declarationFilter k (without P n) = declarationFilter k n" for k
    using declarationFilter_no_new[OF assms(1,2), of k] declarationFilter_stable[OF assms(1), of k n]
    by blast
  ultimately show ?thesis by (simp add: tracked_wrapper_def)
qed

lemma tracked_wrapper_Absent: "\<not> tracked_wrapper names Absent"
  by (simp add: tracked_wrapper_def list_ex_iff exportFilter_def declarationFilter_def)

lemma delete_wrapper_multi:
  assumes "k \<in> set names" "deletes_plainly t"
  shows "multi_declarations (tracked_wrapper names) (delete_wrapper k t)
         = multi_declarations (tracked_wrapper names) t"
proof -
  let ?W = "tracked_wrapper names"
  let ?t1 = "without (exportFilter k) t"
  have in_W: "?W n" if "exportFilter k n \<or> declarationFilter k n" for n
    using that assms(1) unfolding tracked_wrapper_def list_ex_iff by blast
  have "multi_declarations ?W ?t1 = multi_declarations ?W t"
    using assms(2)
    by (intro multi_declarations_without template_query_filters tracked_wrapper_same
          tracked_wrapper_Absent in_W)
       (simp_all add: deletes_plainly_def template_query_filters)
  moreover have "multi_declarations ?W (without (declarationFilter k) ?t1) = multi_declarations ?W ?t1"
    using deletes_plainly_without[OF assms(2), of "exportFilter k"]
    by (intro multi_declarations_without template_query_filters tracked_wrapper_same
          tracked_wrapper_Absent in_W)
       (simp_all add: deletes_plainly_def template_query_filters)
  ultimately show ?thesis by (simp add: delete_wrapper_without)
qed

lemma fold_delete_wrapper_multi:
  assumes "set ns \<subseteq> set names" "deletes_plainly t"
  shows "multi_declarations (tracked_wrapper names) (fold delete_wrapper ns t)
         = multi_declarations (tracked_wrapper names) t"
  using assms
  by (induction ns arbitrary: t) (simp_all add: delete_wrapper_multi delete_wrapper_plainly)

lemma below_get:
  assumes "all_below A t" "get t p = Some n" "p \<noteq> []"
  shows "A n"
proof -
  from assms(2,3) have "(p, n) \<in> set (descendants t)" by (simp add: in_descendants_iff)
  with assms(1) show ?thesis unfolding all_below_def by force
qed


section \<open>The registry across invocations\<close>











text \<open>
  An environment for two pages and a template, with a printer that writes the names of the
  identifiers of a tree, separated by blanks. In this template the placeholder of
  \<^verbatim>\<open>getStaticProps\<close> stands in the wrapper of \<^verbatim>\<open>getServerSideProps\<close>.
  \<open>state_after_props_page\<close> is the state that an invocation on the first page leaves.
\<close>

definition names_text :: "ast \<Rightarrow> string" where
  "names_text t =
     concat (map (\<lambda>(p, n). case n of Identifier x \<Rightarrow> x @ '' '' | _ \<Rightarrow> []) (descendants t))"

















text \<open>
  Claim C9. Let the user text and the template text parse, let the user tree contain no
  identifier named with a tracked name, and let the template tree keep the contract: every
  placeholder lies inside an export specifier or a single-binding declaration of a tracked
  name, and no export specifier or declaration is the child of a declaration, an
  expression statement or an if statement. \<open>templateAST'\<close> is the template tree that the
  per-name pass of \<^verbatim>\<open>wrapFunctions\<close> leaves. Then

  \<^item> the texts that \<^verbatim>\<open>wrapFunctions\<close> returns are the renderings of the user tree, unchanged,
    and of \<open>templateAST'\<close>;
  \<^item> no node of \<open>templateAST'\<close> is an identifier named with a placeholder;
  \<^item> no node of \<open>templateAST'\<close> is an export specifier whose exported name is a tracked name,
    and none is a declaration whose one binding is a tracked name;
  \<^item> in any tree, a declaration with another number of bindings than one is not in the
    collection that \<^verbatim>\<open>findDeclarations\<close> returns, for any name;
  \<^item> the declarations with another number of bindings than one that lie outside the
    deleted wrappers are the same in \<open>templateAST'\<close> as in the template tree, in number,
    order and binding names;
  \<^item> if the printer writes a placeholder only where the tree has an identifier of that
    name, the rendered template text contains no placeholder. The printer is recast's,
    outside the source.
\<close>

theorem wrapFunctions_deletes_unused_wrappers:
  assumes user: "makeAST e userCode (isTS_path path) = Inr userAST"
    and templ: "makeAST e templCode False = Inr templateAST"
    and absent: "\<forall>name \<in> set (map fst (registry st)). findIdentifiers userAST name = []"
    and plain: "deletes_plainly templateAST"
    and contract: "\<forall>tr \<in> set (map snd (registry st)).
                     covered (tracked_wrapper (map fst (registry st))) (placeholder tr) templateAST"
    and result: "templateAST' = fst (snd (fold perName (map fst (registry st))
                                            (userAST, templateAST, registry st)))"
  shows "fst (wrapFunctions e st userCode templCode path) = (toSource e userAST, toSource e templateAST')
         \<and> (\<forall>tr \<in> set (map snd (registry st)). \<forall>p. p \<noteq> [] \<longrightarrow>
                get templateAST' p \<noteq> Some (Identifier (placeholder tr)))
         \<and> (\<forall>name \<in> set (map fst (registry st)). \<forall>p. p \<noteq> [] \<longrightarrow>
                (\<forall>l. get templateAST' p \<noteq> Some (ExportSpecifier l (Identifier name)))
              \<and> (\<forall>init. get templateAST' p
                          \<noteq> Some (VariableDeclaration [VariableDeclarator (Identifier name) init])))
         \<and> (\<forall>t name p ds. get t p = Some (VariableDeclaration ds) \<and> length ds \<noteq> 1
                \<longrightarrow> p \<notin> set (findDeclarations t name))
         \<and> multi_declarations (tracked_wrapper (map fst (registry st))) templateAST'
             = multi_declarations (tracked_wrapper (map fst (registry st))) templateAST
         \<and> ((\<forall>tr \<in> set (map snd (registry st)).
                 str_includes (toSource e templateAST') (placeholder tr)
                 \<longrightarrow> findIdentifiers templateAST' (placeholder tr) \<noteq> [])
              \<longrightarrow> (\<forall>tr \<in> set (map snd (registry st)).
                     \<not> str_includes (snd (fst (wrapFunctions e st userCode templCode path)))
                                      (placeholder tr)))"
proof -
  let ?names = "map fst (registry st)"
  have run: "fold perName ?names (userAST, templateAST, registry st)
             = (userAST, fold delete_wrapper ?names templateAST, registry st)"
    using absent by (simp add: fold_perName_absent)
  then have res: "templateAST' = fold delete_wrapper ?names templateAST"
    by (simp add: result)
  have out: "fst (wrapFunctions e st userCode templCode path) = (toSource e userAST, toSource e templateAST')"
    by (simp add: wrapFunctions_def Let_def user templ run res)
  have no_exports: "get templateAST' p \<noteq> Some (ExportSpecifier l (Identifier name))"
    if "name \<in> set ?names" "p \<noteq> []" for name p l
  proof
    assume "get templateAST' p = Some (ExportSpecifier l (Identifier name))"
    from below_get[OF fold_delete_wrapper_clears(1)[OF plain that(1)] this[unfolded res] that(2)]
    show False by (simp add: exportFilter_def name_of_def)
  qed
  have no_declarations:
    "get templateAST' p \<noteq> Some (VariableDeclaration [VariableDeclarator (Identifier name) init])"
    if "name \<in> set ?names" "p \<noteq> []" for name p init
  proof
    assume "get templateAST' p = Some (VariableDeclaration [VariableDeclarator (Identifier name) init])"
    from below_get[OF fold_delete_wrapper_clears(2)[OF plain that(1)] this[unfolded res] that(2)]
    show False by (simp add: declarationFilter_def name_of_def)
  qed
  have no_wrappers: "all_below (\<lambda>n. \<not> tracked_wrapper ?names n) templateAST'"
    unfolding all_below_def tracked_wrapper_def list_ex_iff res
    using fold_delete_wrapper_clears[OF plain, unfolded all_below_def] by blast
  have cleared: "all_below (\<lambda>n. name_of n \<noteq> Some (placeholder tr)) templateAST'"
    if "tr \<in> set (map snd (registry st))" for tr
  proof -
    have "covered (tracked_wrapper ?names) (placeholder tr) templateAST'"
      unfolding res using contract that by (intro fold_delete_wrapper(2)[OF plain]) blast
    then show ?thesis using no_wrappers by (rule covered_without_wrappers)
  qed
  have placeholders: "get templateAST' p \<noteq> Some (Identifier (placeholder tr))"
    if "tr \<in> set (map snd (registry st))" "p \<noteq> []" for tr p
  proof
    assume "get templateAST' p = Some (Identifier (placeholder tr))"
    from below_get[OF cleared[OF that(1)] this that(2)] show False by (simp add: name_of_def)
  qed
  have unmatched: "p \<notin> set (findDeclarations t name)"
    if "get t p = Some (VariableDeclaration ds) \<and> length ds \<noteq> 1" for t name p ds
  proof
    assume "p \<in> set (findDeclarations t name)"
    then obtain n where "(p, n) \<in> set (descendants t)" "declarationFilter name n"
      unfolding findDeclarations_def ast_find_def by auto
    with that show False by (auto simp: in_descendants_iff declarationFilter_def)
  qed
  have multi: "multi_declarations (tracked_wrapper ?names) templateAST'
               = multi_declarations (tracked_wrapper ?names) templateAST"
    unfolding res by (rule fold_delete_wrapper_multi[OF subset_refl plain])
  have rendered: "\<not> str_includes (snd (fst (wrapFunctions e st userCode templCode path))) (placeholder tr)"
    if printer: "\<forall>tr \<in> set (map snd (registry st)).
                   str_includes (toSource e templateAST') (placeholder tr)
                   \<longrightarrow> findIdentifiers templateAST' (placeholder tr) \<noteq> []"
      and tr: "tr \<in> set (map snd (registry st))" for tr
  proof -
    have "findIdentifiers templateAST' (placeholder tr) = []"
      using cleared[OF tr] by (simp add: findIdentifiers_empty_all_below)
    with printer tr show ?thesis unfolding out by auto
  qed
  show ?thesis
    using out placeholders no_exports no_declarations unmatched multi rendered by blast
qed

text \<open>Equations that let the simplifier check the contract on a given template tree.\<close>

definition covered_in :: "(node \<Rightarrow> bool) \<Rightarrow> string \<Rightarrow> node list \<Rightarrow> bool" where
  "covered_in Q x cs = (\<forall>c \<in> set cs. Q c \<or> (name_of c \<noteq> Some x \<and> covered Q x c))"

lemma covered_kids: "covered Q x t = covered_in Q x (kids t)"
  by (subst covered.simps) (simp add: covered_in_def)

lemma covered_in_eval:
  "covered_in Q x [] = True"
  "covered_in Q x (c # cs) =
     ((Q c \<or> (name_of c \<noteq> Some x \<and> covered_in Q x (kids c))) \<and> covered_in Q x cs)"
  using covered_kids[of Q x c] by (simp_all add: covered_in_def)

definition multi_in :: "(node \<Rightarrow> bool) \<Rightarrow> node list \<Rightarrow> string option list list" where
  "multi_in W cs = concat (map (multi_entry W) cs)"

lemma multi_declarations_in: "multi_declarations W t = multi_in W (kids t)"
  by (simp add: multi_in_def multi_declarations_kids)

lemma multi_in_eval:
  "multi_in W [] = []"
  "multi_in W (c # cs) =
     (if W c then [] else (if is_multi c then [bindings c] else []) @ multi_in W (kids c))
       @ multi_in W cs"
  using multi_declarations_in[of W c] by (simp_all add: multi_in_def multi_entry_def)

lemmas template_eval = covered_kids covered_in_eval kids_simps tracked_wrapper_def
  exportFilter_def declarationFilter_def name_of_def deletes_plainly_def all_below_def
  plain_parent_def template_kind_def delete_wrapper_without perName_absent
  multi_declarations_in multi_in_eval is_multi_def bindings_def

text \<open>
  A template in the form the contract describes, after the build has split each exported
  constant into a declaration and an export specifier: for each tracked name a
  single-binding declaration whose initialiser holds the placeholder, and an export
  specifier. A declaration with two bindings, one of them named with a tracked name, is
  added to show that it stays. \<open>contract_template_tree_emptied\<close> is the template tree after
  the per-name pass for a page that uses none of the three names.
\<close>

definition wrapper_call :: "string \<Rightarrow> string \<Rightarrow> node" where
  "wrapper_call wrapper origPlaceholder =
     Other ''CallExpression''
       [MemberExpression (Identifier ''ServerSideSentryNextjsSDK'') (Identifier wrapper) False,
        Identifier origPlaceholder]"

definition contract_template_tree :: ast where
  "contract_template_tree = module
     [Other ''ImportDeclaration''
        [Other ''ImportNamespaceSpecifier'' [Identifier ''ServerSideSentryNextjsSDK'']],
      VariableDeclaration
        [VariableDeclarator (Identifier ''getServerSideProps'')
           (Some (wrapper_call ''withSentryGSSP'' ''__ORIG_GSSP__''))],
      VariableDeclaration
        [VariableDeclarator (Identifier ''getStaticProps'')
           (Some (wrapper_call ''withSentryGSProps'' ''__ORIG_GSPROPS__''))],
      VariableDeclaration
        [VariableDeclarator (Identifier ''getStaticPaths'')
           (Some (wrapper_call ''withSentryGSPaths'' ''__ORIG_GSPATHS__''))],
      VariableDeclaration
        [VariableDeclarator (Identifier ''getStaticProps'') None,
         VariableDeclarator (Identifier ''revalidate'') None],
      Other ''ExportNamedDeclaration''
        [ExportSpecifier (Some (Identifier ''getServerSideProps'')) (Identifier ''getServerSideProps''),
         ExportSpecifier (Some (Identifier ''getStaticProps'')) (Identifier ''getStaticProps''),
         ExportSpecifier (Some (Identifier ''getStaticPaths'')) (Identifier ''getStaticPaths'')]]"

definition contract_template_tree_emptied :: ast where
  "contract_template_tree_emptied = module
     [Other ''ImportDeclaration''
        [Other ''ImportNamespaceSpecifier'' [Identifier ''ServerSideSentryNextjsSDK'']],
      VariableDeclaration
        [VariableDeclarator (Identifier ''getStaticProps'') None,
         VariableDeclarator (Identifier ''revalidate'') None],
      Other ''ExportNamedDeclaration'' []]"

definition comment_page :: string where
  "comment_page = ''export default function Page() { /* no getStaticProps here */ }''"

definition comment_page_tree :: ast where
  "comment_page_tree = module
     [Other ''ExportDefaultDeclaration'' [Other ''FunctionDeclaration'' [Identifier ''Page'']]]"

definition contract_env :: env where
  "contract_env =
     \<lparr>isESM = (\<lambda>code. True),
      makeAST = (\<lambda>code isTS. if code = comment_page then Inr comment_page_tree
                               else Inr contract_template_tree),
      toSource = names_text,
      templateCode = ''template'',
      filepath = ''pages/index.js''\<rparr>"

lemmas contract_defs = contract_env_def comment_page_def comment_page_tree_def
  contract_template_tree_def contract_template_tree_emptied_def wrapper_call_def module_def
  initial_state_def DATA_FETCHING_FUNCTIONS_def

lemma contract_user: "makeAST contract_env comment_page (isTS_path ''pages/index.js'') = Inr comment_page_tree"
  by (simp add: contract_defs)

lemma contract_templ: "makeAST contract_env ''template'' False = Inr contract_template_tree"
  by (simp add: contract_defs)

lemma contract_absent:
  "\<forall>name \<in> set (map fst (registry initial_state)). findIdentifiers comment_page_tree name = []"
  by (simp add: tree_eval contract_defs)

lemma contract_plain: "deletes_plainly contract_template_tree"
  by (simp add: template_eval tree_eval contract_defs)

lemma contract_covered:
  "\<forall>tr \<in> set (map snd (registry initial_state)).
     covered (tracked_wrapper (map fst (registry initial_state))) (placeholder tr) contract_template_tree"
  by (simp add: template_eval contract_defs)

lemma contract_result:
  "contract_template_tree_emptied
     = fst (snd (fold perName (map fst (registry initial_state))
                   (comment_page_tree, contract_template_tree, registry initial_state)))"
  by (simp add: template_eval tree_eval contract_defs)

theorem wrapFunctions_deletes_unused_wrappers_witness:
  "fst (wrapFunctions contract_env initial_state comment_page ''template'' ''pages/index.js'')
     = (names_text comment_page_tree, names_text contract_template_tree_emptied)
   \<and> names_text contract_template_tree_emptied = ''ServerSideSentryNextjsSDK getStaticProps revalidate ''
   \<and> get contract_template_tree_emptied [Elem 0, Elem (Suc 0)]
       = Some (VariableDeclaration [VariableDeclarator (Identifier ''getStaticProps'') None,
                                    VariableDeclarator (Identifier ''revalidate'') None])
   \<and> get contract_template_tree_emptied [Elem 0, Elem (Suc 0), Elem 0] \<noteq> Some (Identifier ''__ORIG_GSPROPS__'')
   \<and> get contract_template_tree_emptied [Elem 0, Elem (Suc (Suc 0)), Elem 0]
       \<noteq> Some (ExportSpecifier (Some (Identifier ''getStaticProps'')) (Identifier ''getStaticProps''))
   \<and> get contract_template_tree_emptied [Elem 0, Elem (Suc 0)]
       \<noteq> Some (VariableDeclaration [VariableDeclarator (Identifier ''getStaticProps'') None])
   \<and> [Elem 0, Elem 4] \<notin> set (findDeclarations contract_template_tree ''getStaticProps'')
   \<and> multi_declarations (tracked_wrapper [''getServerSideProps'', ''getStaticProps'', ''getStaticPaths''])
         contract_template_tree_emptied
       = [[Some ''getStaticProps'', Some ''revalidate'']]
   \<and> multi_declarations (tracked_wrapper [''getServerSideProps'', ''getStaticProps'', ''getStaticPaths''])
         contract_template_tree
       = [[Some ''getStaticProps'', Some ''revalidate'']]
   \<and> \<not> str_includes (snd (fst (wrapFunctions contract_env initial_state comment_page ''template''
                                   ''pages/index.js''))) ''__ORIG_GSPROPS__''"
proof -
  note facts = wrapFunctions_deletes_unused_wrappers[OF contract_user contract_templ contract_absent
      contract_plain contract_covered contract_result]
  have out: "fst (wrapFunctions contract_env initial_state comment_page ''template'' ''pages/index.js'')
     = (names_text comment_page_tree, names_text contract_template_tree_emptied)"
    using facts[THEN conjunct1] by (simp add: contract_env_def)
  have shown: "names_text contract_template_tree_emptied = ''ServerSideSentryNextjsSDK getStaticProps revalidate ''"
    by (simp add: names_text_def tree_eval contract_defs)
  have two: "get contract_template_tree_emptied [Elem 0, Elem (Suc 0)]
       = Some (VariableDeclaration [VariableDeclarator (Identifier ''getStaticProps'') None,
                                    VariableDeclarator (Identifier ''revalidate'') None])"
    by (simp add: child_simps contract_template_tree_emptied_def module_def)
  have ph: "get contract_template_tree_emptied [Elem 0, Elem (Suc 0), Elem 0] \<noteq> Some (Identifier ''__ORIG_GSPROPS__'')"
  proof -
    have "\<forall>p. p \<noteq> [] \<longrightarrow> get contract_template_tree_emptied p \<noteq> Some (Identifier ''__ORIG_GSPROPS__'')"
      using facts[THEN conjunct2, THEN conjunct1]
      by (simp add: initial_state_def DATA_FETCHING_FUNCTIONS_def)
    from this[rule_format, of "[Elem 0, Elem (Suc 0), Elem 0]"] show ?thesis by simp
  qed
  have wrappers: "\<forall>p. p \<noteq> [] \<longrightarrow>
        (\<forall>l. get contract_template_tree_emptied p
               \<noteq> Some (ExportSpecifier l (Identifier ''getStaticProps'')))
      \<and> (\<forall>init. get contract_template_tree_emptied p
               \<noteq> Some (VariableDeclaration [VariableDeclarator (Identifier ''getStaticProps'') init]))"
    using facts[THEN conjunct2, THEN conjunct2, THEN conjunct1]
    by (simp add: initial_state_def DATA_FETCHING_FUNCTIONS_def)
  have wr1: "get contract_template_tree_emptied [Elem 0, Elem (Suc (Suc 0)), Elem 0]
       \<noteq> Some (ExportSpecifier (Some (Identifier ''getStaticProps'')) (Identifier ''getStaticProps''))"
    using wrappers[rule_format, of "[Elem 0, Elem (Suc (Suc 0)), Elem 0]", THEN conjunct1, rule_format,
        of "Some (Identifier ''getStaticProps'')"]
    by simp
  have wr2: "get contract_template_tree_emptied [Elem 0, Elem (Suc 0)]
       \<noteq> Some (VariableDeclaration [VariableDeclarator (Identifier ''getStaticProps'') None])"
    using wrappers[rule_format, of "[Elem 0, Elem (Suc 0)]", THEN conjunct2, rule_format, of None]
    by simp
  have um: "[Elem 0, Elem 4] \<notin> set (findDeclarations contract_template_tree ''getStaticProps'')"
    using facts[THEN conjunct2, THEN conjunct2, THEN conjunct2, THEN conjunct1,
        rule_format, of contract_template_tree "[Elem 0, Elem 4]"
          "[VariableDeclarator (Identifier ''getStaticProps'') None,
            VariableDeclarator (Identifier ''revalidate'') None]" "''getStaticProps''"]
    by (simp add: child_simps contract_template_tree_def module_def)
  have m1: "multi_declarations (tracked_wrapper [''getServerSideProps'', ''getStaticProps'', ''getStaticPaths''])
         contract_template_tree
       = [[Some ''getStaticProps'', Some ''revalidate'']]"
    by (simp add: template_eval contract_defs)
  have m2: "multi_declarations (tracked_wrapper [''getServerSideProps'', ''getStaticProps'', ''getStaticPaths''])
         contract_template_tree_emptied
       = [[Some ''getStaticProps'', Some ''revalidate'']]"
    using facts[THEN conjunct2, THEN conjunct2, THEN conjunct2, THEN conjunct2, THEN conjunct1] m1
    by (simp add: initial_state_def DATA_FETCHING_FUNCTIONS_def)
  have printer: "\<forall>tr \<in> set (map snd (registry initial_state)).
          str_includes (toSource contract_env contract_template_tree_emptied) (placeholder tr)
          \<longrightarrow> findIdentifiers contract_template_tree_emptied (placeholder tr) \<noteq> []"
    by (simp add: contract_env_def shown initial_state_def DATA_FETCHING_FUNCTIONS_def)
  have nt: "\<not> str_includes (snd (fst (wrapFunctions contract_env initial_state comment_page ''template''
                                   ''pages/index.js''))) ''__ORIG_GSPROPS__''"
    using facts[THEN conjunct2, THEN conjunct2, THEN conjunct2, THEN conjunct2, THEN conjunct2,
        THEN mp, OF printer]
    by (simp add: initial_state_def DATA_FETCHING_FUNCTIONS_def)
  show ?thesis using out shown two ph wr1 wr2 um m1 m2 nt by simp
qed

end
